theory Spec2Isabelle
  imports Main
begin

section \<open>Data model\<close>

text \<open>
  The program (\<^verbatim>\<open>solution.py\<close>) logs in to an HTTP API, obtains a bearer token and
  fetches three protected resources, logging in again when a fetch is answered with 401.
  Its three coroutines \<^verbatim>\<open>try_login\<close>, \<^verbatim>\<open>try_get\<close> and \<^verbatim>\<open>main\<close> await one request at a
  time, so the run is sequential and is modelled by passing the state explicitly.
\<close>

subsection \<open>Python values\<close>

text \<open>
  The values a decoded JSON body can hold, as Python sees them after \<^verbatim>\<open>resp.json()\<close>:
  \<^verbatim>\<open>None\<close>, booleans, integers, strings, lists and dictionaries with string keys.
  A dictionary is kept as the list of its items and read with \<open>map_of\<close>.
  (JSON numbers with a fraction are left out.)
\<close>

datatype pyval =
    PNone
  | PBool bool
  | PInt int
  | PStr string
  | PList "pyval list"
  | PDict "(string \<times> pyval) list"

text \<open>Python's truth value of an object, as tested by \<^verbatim>\<open>if not token\<close> and \<^verbatim>\<open>if not resp\<close>.\<close>

fun py_truthy :: "pyval \<Rightarrow> bool" where
  "py_truthy PNone = False"
| "py_truthy (PBool b) = b"
| "py_truthy (PInt i) = (i \<noteq> 0)"
| "py_truthy (PStr s) = (s \<noteq> [])"
| "py_truthy (PList xs) = (xs \<noteq> [])"
| "py_truthy (PDict kvs) = (kvs \<noteq> [])"

text \<open>\<^verbatim>\<open>d.get(key)\<close> on a dictionary: the value, or \<^verbatim>\<open>None\<close> when the key is missing.\<close>

definition dict_get :: "(string \<times> pyval) list \<Rightarrow> string \<Rightarrow> pyval" where
  "dict_get kvs key = (case map_of kvs key of None \<Rightarrow> PNone | Some v \<Rightarrow> v)"

subsection \<open>Errors\<close>

text \<open>
  None of the three coroutines catches an exception, so each one propagates to the caller.
  \<open>ClientError\<close>: the transport failed inside \<^verbatim>\<open>session.post\<close> or \<^verbatim>\<open>session.get\<close>;
  \<open>JSONError\<close>: \<^verbatim>\<open>resp.json()\<close> could not decode the body;
  \<open>AttributeError\<close>: the decoded body is not a dictionary, so it has no \<^verbatim>\<open>get\<close>.
\<close>

datatype error = ClientError | JSONError | AttributeError

subsection \<open>Requests, replies, the server\<close>

text \<open>
  A request is the call the program makes on the session. In \<open>GET url token\<close> the second
  argument is the value formatted into the header \<^verbatim>\<open>{"Authorization": f"Bearer {token}"}\<close>;
  the header is kept as the token it was built from.
\<close>

datatype request =
    POST string pyval
  | GET string pyval

text \<open>
  What awaiting a request gives: an exception of the transport, or a response with its
  status and its body, where the body is \<open>None\<close> when \<^verbatim>\<open>resp.json()\<close> raises and the
  decoded value otherwise.
\<close>

datatype reply =
    TransportError
  | Response int "pyval option"

text \<open>
  The server is any function from the requests received so far, the current one last,
  to the reply to the current one. Every run against a real server follows one such
  function.
\<close>

type_synonym server = "request list \<Rightarrow> reply"

subsection \<open>The state of a run\<close>

datatype level = ERROR | WARNING | INFO

text \<open>A call \<^verbatim>\<open>log.error(msg, *args)\<close>: the level, the message and its arguments.\<close>

type_synonym log_record = "level \<times> pyval \<times> pyval list"

record world =
  sent :: "request list"
  logs :: "log_record list"

definition log_error :: "string \<Rightarrow> pyval list \<Rightarrow> world \<Rightarrow> world" where
  "log_error msg args w = w\<lparr>logs := logs w @ [(ERROR, PStr msg, args)]\<rparr>"

definition log_warning :: "string \<Rightarrow> pyval list \<Rightarrow> world \<Rightarrow> world" where
  "log_warning msg args w = w\<lparr>logs := logs w @ [(WARNING, PStr msg, args)]\<rparr>"

definition log_info :: "pyval \<Rightarrow> world \<Rightarrow> world" where
  "log_info msg w = w\<lparr>logs := logs w @ [(INFO, msg, [])]\<rparr>"

definition session_post :: "server \<Rightarrow> string \<Rightarrow> pyval \<Rightarrow> world \<Rightarrow> reply \<times> world" where
  "session_post srv url body w =
     (let h = sent w @ [POST url body] in (srv h, w\<lparr>sent := h\<rparr>))"

definition session_get :: "server \<Rightarrow> string \<Rightarrow> pyval \<Rightarrow> world \<Rightarrow> reply \<times> world" where
  "session_get srv url token w =
     (let h = sent w @ [GET url token] in (srv h, w\<lparr>sent := h\<rparr>))"

text \<open>\<^verbatim>\<open>body = await resp.json(); return body.get(key)\<close>\<close>

fun json_get :: "pyval option \<Rightarrow> string \<Rightarrow> error + pyval" where
  "json_get None key = Inl JSONError"
| "json_get (Some (PDict kvs)) key = Inr (dict_get kvs key)"
| "json_get (Some v) key = Inl AttributeError"

section \<open>The program\<close>

definition MAX_RETRIES :: int where
  "MAX_RETRIES = 5"

definition creds :: pyval where
  "creds = PDict [(''username'', PStr ''guest''), (''password'', PStr ''guest'')]"

definition login_url :: string where
  "login_url = ''http://localhost:5000/api/login''"

text \<open>
  A coroutine either never returns (\<open>None\<close>) or returns (\<open>Some\<close>) the state it leaves
  together with the exception it raised (\<open>Inl\<close>) or its value (\<open>Inr\<close>).
\<close>

type_synonym 'a outcome = "((error + 'a) \<times> world) option"

text \<open>
  The loop of \<^verbatim>\<open>try_login\<close>. The variable \<^verbatim>\<open>attempts\<close> is a parameter; the source never
  assigns to it in the loop body, so the recursive call passes it on as it is.
\<close>

partial_function (option) try_login_loop :: "server \<Rightarrow> int \<Rightarrow> world \<Rightarrow> pyval outcome" where
  "try_login_loop srv attempts w =
     (if attempts < MAX_RETRIES then
        (case session_post srv login_url creds w of
           (TransportError, w1) \<Rightarrow> Some (Inl ClientError, w1)
         | (Response status body, w1) \<Rightarrow>
             if status = 200 then Some (json_get body ''access_token'', w1)
             else try_login_loop srv attempts w1)
      else
        Some (Inr PNone,
              log_error ''Too many login attempts %d/%d'' [PInt attempts, PInt MAX_RETRIES] w))"

declare try_login_loop.simps [code]

definition try_login :: "server \<Rightarrow> world \<Rightarrow> pyval outcome" where
  "try_login srv w = try_login_loop srv 0 w"

text \<open>The loop of \<^verbatim>\<open>try_get\<close>; \<^verbatim>\<open>attempts\<close> is not assigned here either, \<^verbatim>\<open>token\<close> is.\<close>

partial_function (option) try_get_loop ::
  "server \<Rightarrow> string \<Rightarrow> int \<Rightarrow> pyval \<Rightarrow> world \<Rightarrow> pyval outcome" where
  "try_get_loop srv url attempts token w =
     (if attempts < MAX_RETRIES then
        (case session_get srv url token w of
           (TransportError, w1) \<Rightarrow> Some (Inl ClientError, w1)
         | (Response status body, w1) \<Rightarrow>
             if status = 200 then Some (json_get body ''answer'', w1)
             else if status = 401 then
               (case try_login srv (log_warning ''401 Unauthorized, retrying...'' [] w1) of
                  None \<Rightarrow> None
                | Some (Inl e, w2) \<Rightarrow> Some (Inl e, w2)
                | Some (Inr token', w2) \<Rightarrow>
                    if \<not> py_truthy token' then
                      Some (Inr PNone, log_error ''Error getting new access token'' [] w2)
                    else try_get_loop srv url attempts token' w2)
             else try_get_loop srv url attempts token w1)
      else
        Some (Inr PNone,
              log_error ''Too many login attempts %d/%d'' [PInt attempts, PInt MAX_RETRIES] w))"

declare try_get_loop.simps [code]

definition try_get :: "server \<Rightarrow> string \<Rightarrow> pyval \<Rightarrow> world \<Rightarrow> pyval outcome" where
  "try_get srv url token w = try_get_loop srv url 0 token w"

definition secret_urls :: "string list" where
  "secret_urls =
     [''http://localhost:5000/api/secret1'',
      ''http://localhost:5000/api/secret2'',
      ''http://localhost:5000/api/secret3'']"

text \<open>
  The \<^verbatim>\<open>for url in secret_urls\<close> loop of \<^verbatim>\<open>main\<close>, with the list \<^verbatim>\<open>answers\<close> as an
  accumulator. The variable \<^verbatim>\<open>token\<close> of \<^verbatim>\<open>main\<close> is assigned once, before the loop.
\<close>

fun main_loop :: "server \<Rightarrow> pyval \<Rightarrow> string list \<Rightarrow> pyval list \<Rightarrow> world \<Rightarrow> pyval list outcome" where
  "main_loop srv token [] answers w = Some (Inr answers, w)"
| "main_loop srv token (url # urls) answers w =
     (case try_get srv url token w of
        None \<Rightarrow> None
      | Some (Inl e, w1) \<Rightarrow> Some (Inl e, w1)
      | Some (Inr resp, w1) \<Rightarrow>
          if \<not> py_truthy resp then
            main_loop srv token urls answers
              (log_error ''Error getting secret at %s'' [PStr url] w1)
          else main_loop srv token urls (answers @ [resp]) w1)"

text \<open>\<^verbatim>\<open>for answer in answers: log.info(answer)\<close>\<close>

fun log_answers :: "pyval list \<Rightarrow> world \<Rightarrow> world" where
  "log_answers [] w = w"
| "log_answers (answer # answers) w = log_answers answers (log_info answer w)"

definition start :: world where
  "start = \<lparr>sent = [], logs = []\<rparr>"

definition main :: "server \<Rightarrow> unit outcome" where
  "main srv =
     (case try_login srv start of
        None \<Rightarrow> None
      | Some (Inl e, w1) \<Rightarrow> Some (Inl e, w1)
      | Some (Inr token, w1) \<Rightarrow>
          (case main_loop srv token secret_urls [] w1 of
             None \<Rightarrow> None
           | Some (Inl e, w2) \<Rightarrow> Some (Inl e, w2)
           | Some (Inr answers, w2) \<Rightarrow> Some (Inr (), log_answers answers w2)))"

section \<open>States, traces and servers used in the statements\<close>

subsection \<open>States\<close>

text \<open>
  The state after one more login request, after one more fetch of \<open>url\<close>, and after the
  warning that \<^verbatim>\<open>try_get\<close> logs on a 401.
\<close>

definition posted :: "world \<Rightarrow> world" where
  "posted w = w\<lparr>sent := sent w @ [POST login_url creds]\<rparr>"

definition fetched :: "string \<Rightarrow> pyval \<Rightarrow> world \<Rightarrow> world" where
  "fetched url token w = w\<lparr>sent := sent w @ [GET url token]\<rparr>"

definition warned :: "world \<Rightarrow> world" where
  "warned w = log_warning ''401 Unauthorized, retrying...'' [] w"

text \<open>The requests of a run that ended; none for a run that never returns.\<close>

definition run_trace :: "'a outcome \<Rightarrow> request list" where
  "run_trace r = (case r of None \<Rightarrow> [] | Some (x, w) \<Rightarrow> sent w)"

fun is_GET :: "request \<Rightarrow> bool" where
  "is_GET (GET u t) = True"
| "is_GET (POST u b) = False"

subsection \<open>Tokens along a trace\<close>

text \<open>
  The token that \<^verbatim>\<open>try_login\<close> returns on a reply: the \<^verbatim>\<open>access_token\<close> field of a
  reply with status 200 and a JSON object as body. On any other reply it returns none.
\<close>

fun login_result :: "reply \<Rightarrow> pyval option" where
  "login_result (Response status (Some (PDict kvs))) =
     (if status = 200 then Some (dict_get kvs ''access_token'') else None)"
| "login_result r = None"

text \<open>
  The token returned by the most recent successful login in a history. \<open>newest_login\<close>
  reads the history newest request first; the server is asked with the history in the
  order the requests were sent.
\<close>

fun newest_login :: "server \<Rightarrow> request list \<Rightarrow> pyval option" where
  "newest_login srv [] = None"
| "newest_login srv (GET u t # older) = newest_login srv older"
| "newest_login srv (POST u b # older) =
     (case login_result (srv (rev (POST u b # older))) of
        Some t \<Rightarrow> Some t
      | None \<Rightarrow> newest_login srv older)"

definition last_login_token :: "server \<Rightarrow> request list \<Rightarrow> pyval option" where
  "last_login_token srv h = newest_login srv (rev h)"


text \<open>The token presented by the first GET of \<open>u\<close> in a trace.\<close>

fun first_get :: "string \<Rightarrow> request list \<Rightarrow> pyval option" where
  "first_get u [] = None"
| "first_get u (POST u' b # rs) = first_get u rs"
| "first_get u (GET u' t # rs) = (if u' = u then Some t else first_get u rs)"

subsection \<open>Servers\<close>

definition token_body :: "string \<Rightarrow> pyval option" where
  "token_body t = Some (PDict [(''access_token'', PStr t)])"

definition answer_body :: "string \<Rightarrow> pyval option" where
  "answer_body a = Some (PDict [(''answer'', PStr a)])"

text \<open>The three answers, by URL.\<close>

definition answers_by_url :: "string \<Rightarrow> string \<Rightarrow> string \<Rightarrow> string \<Rightarrow> reply" where
  "answers_by_url a1 a2 a3 u =
     (if u = ''http://localhost:5000/api/secret1'' then Response 200 (answer_body a1)
      else if u = ''http://localhost:5000/api/secret2'' then Response 200 (answer_body a2)
      else Response 200 (answer_body a3))"

text \<open>A server that answers every request with status 500 and a body that is not JSON.\<close>

definition always_500 :: server where
  "always_500 h = Response 500 None"

text \<open>Every login gives the token T1, every fetch its answer.\<close>

definition happy_server :: server where
  "happy_server h =
     (case rev h of
        [] \<Rightarrow> TransportError
      | POST u b # older \<Rightarrow> Response 200 (token_body ''T1'')
      | GET u t # older \<Rightarrow> answers_by_url ''A1'' ''A2'' ''A3'' u)"

text \<open>As \<open>happy_server\<close>, but the second resource has the empty string as answer.\<close>

definition empty_answer_server :: server where
  "empty_answer_server h =
     (case rev h of
        [] \<Rightarrow> TransportError
      | POST u b # older \<Rightarrow> Response 200 (token_body ''T1'')
      | GET u t # older \<Rightarrow> answers_by_url ''A1'' [] ''A3'' u)"

text \<open>
  The first token has expired: the first GET of the run is answered with 401, every later
  one with its answer; a login before any GET gives T1, a later one gives T2.
\<close>

definition expiring_server :: server where
  "expiring_server h =
     (case rev h of
        [] \<Rightarrow> TransportError
      | POST u b # older \<Rightarrow>
          if filter is_GET older = [] then Response 200 (token_body ''T1'')
          else Response 200 (token_body ''T2'')
      | GET u t # older \<Rightarrow>
          if filter is_GET older = [] then Response 401 None
          else answers_by_url ''A1'' ''A2'' ''A3'' u)"

text \<open>Every login gives T1; the first six GETs are answered with 401, the seventh with 200.\<close>

definition stubborn_server :: server where
  "stubborn_server h =
     (case rev h of
        [] \<Rightarrow> TransportError
      | POST u b # older \<Rightarrow> Response 200 (token_body ''T1'')
      | GET u t # older \<Rightarrow>
          if length (filter is_GET older) < 6 then Response 401 None
          else Response 200 (answer_body ''A1''))"

text \<open>
  The first login gives T1 and every later login is answered with 500; the first and the
  third resource give their answers, the second is always answered with 401.
\<close>

definition relogin_fails_server :: server where
  "relogin_fails_server h =
     (case rev h of
        [] \<Rightarrow> TransportError
      | POST u b # older \<Rightarrow>
          if older = [] then Response 200 (token_body ''T1'') else Response 500 None
      | GET u t # older \<Rightarrow>
          if u = ''http://localhost:5000/api/secret2'' then Response 401 None
          else answers_by_url ''A1'' ''A2'' ''A3'' u)"

text \<open>Every GET is answered with 401, every login with 200 and the JSON object \<^verbatim>\<open>{}\<close>.\<close>

definition no_token_server :: server where
  "no_token_server h =
     (case rev h of
        [] \<Rightarrow> TransportError
      | POST u b # older \<Rightarrow> Response 200 (Some (PDict []))
      | GET u t # older \<Rightarrow> Response 401 None)"

section \<open>The program, observed for a bounded number of requests\<close>

text \<open>
  A run that never returns still sends requests. To speak of them, the three coroutines are
  written once more, as the source has them, with one addition: before a request is sent,
  the number of requests sent so far is compared with \<open>limit\<close>, and when \<open>limit\<close> requests
  have been sent the run is left where it is (\<open>Running\<close>, with its state at that moment).
  Every recursion sends a request first, so these functions are total.
\<close>

datatype 'a progress =
    Running world
  | Returned "error + 'a" world

definition progress_world :: "'a progress \<Rightarrow> world" where
  "progress_world p = (case p of Running w \<Rightarrow> w | Returned r w \<Rightarrow> w)"

function try_login_upto :: "nat \<Rightarrow> server \<Rightarrow> int \<Rightarrow> world \<Rightarrow> pyval progress" where
  "try_login_upto limit srv attempts w =
     (if attempts < MAX_RETRIES then
        if limit \<le> length (sent w) then Running w
        else
          (case session_post srv login_url creds w of
             (TransportError, w1) \<Rightarrow> Returned (Inl ClientError) w1
           | (Response status body, w1) \<Rightarrow>
               if status = 200 then Returned (json_get body ''access_token'') w1
               else try_login_upto limit srv attempts w1)
      else
        Returned (Inr PNone)
          (log_error ''Too many login attempts %d/%d'' [PInt attempts, PInt MAX_RETRIES] w))"
  by pat_completeness auto
termination
  by (relation "measure (\<lambda>(limit, srv, attempts, w). limit - length (sent w))")
    (auto simp: session_post_def Let_def)

declare try_login_upto.simps [simp del]

function try_get_upto ::
  "nat \<Rightarrow> server \<Rightarrow> string \<Rightarrow> int \<Rightarrow> pyval \<Rightarrow> world \<Rightarrow> pyval progress" where
  "try_get_upto limit srv url attempts token w =
     (if attempts < MAX_RETRIES then
        if limit \<le> length (sent w) then Running w
        else
          (case session_get srv url token w of
             (TransportError, w1) \<Rightarrow> Returned (Inl ClientError) w1
           | (Response status body, w1) \<Rightarrow>
               if status = 200 then Returned (json_get body ''answer'') w1
               else if status = 401 then
                 (case try_login_upto limit srv 0
                         (log_warning ''401 Unauthorized, retrying...'' [] w1) of
                    Running w2 \<Rightarrow> Running w2
                  | Returned (Inl e) w2 \<Rightarrow> Returned (Inl e) w2
                  | Returned (Inr token') w2 \<Rightarrow>
                      if \<not> py_truthy token' then
                        Returned (Inr PNone)
                          (log_error ''Error getting new access token'' [] w2)
                      else try_get_upto limit srv url attempts token' w2)
               else try_get_upto limit srv url attempts token w1)
      else
        Returned (Inr PNone)
          (log_error ''Too many login attempts %d/%d'' [PInt attempts, PInt MAX_RETRIES] w))"
  by pat_completeness auto
termination
proof -
  have grows: "length (sent v) \<le> length (sent (progress_world (try_login_upto limit srv a v)))"
    for limit srv a v
  proof (induct limit srv a v rule: try_login_upto.induct)
    case (1 limit srv attempts w)
    note unfold = try_login_upto.simps [of limit srv attempts w]
    show ?case
    proof (cases "attempts < MAX_RETRIES \<and> \<not> limit \<le> length (sent w)")
      case False
      then show ?thesis
        by (auto simp: unfold progress_world_def log_error_def)
    next
      case True
      show ?thesis
      proof (cases "srv (sent w @ [POST login_url creds])")
        case TransportError
        with True show ?thesis
          by (simp add: unfold progress_world_def session_post_def Let_def)
      next
        case (Response status body)
        show ?thesis
        proof (cases "status = 200")
          case s: True
          with True Response show ?thesis
            by (simp add: unfold progress_world_def session_post_def Let_def)
        next
          case s: False
          from True Response s
          have "length (sent (w\<lparr>sent := sent w @ [POST login_url creds]\<rparr>))
              \<le> length (sent (progress_world (try_login_upto limit srv attempts
                    (w\<lparr>sent := sent w @ [POST login_url creds]\<rparr>))))"
            by (intro 1) (auto simp: session_post_def Let_def)
          with True Response s show ?thesis
            by (simp add: unfold session_post_def Let_def)
        qed
      qed
    qed
  qed
  show ?thesis
  proof (relation "measure (\<lambda>(limit, srv, url, attempts, token, w). limit - length (sent w))",
      goal_cases)
    case 1
    show ?case by simp
  next
    case (2 limit srv url attempts token w x w1 status body r w2 token')
    from grows [of "log_warning ''401 Unauthorized, retrying...'' [] w1" limit srv 0] 2
    show ?case
      by (auto simp: session_get_def Let_def progress_world_def log_warning_def
          simp del: try_login_upto.simps)
  next
    case 3
    then show ?case
      by (auto simp: session_get_def Let_def)
  qed
qed

declare try_get_upto.simps [simp del]

fun main_loop_upto ::
  "nat \<Rightarrow> server \<Rightarrow> pyval \<Rightarrow> string list \<Rightarrow> pyval list \<Rightarrow> world \<Rightarrow> pyval list progress" where
  "main_loop_upto limit srv token [] answers w = Returned (Inr answers) w"
| "main_loop_upto limit srv token (url # urls) answers w =
     (case try_get_upto limit srv url 0 token w of
        Running w1 \<Rightarrow> Running w1
      | Returned (Inl e) w1 \<Rightarrow> Returned (Inl e) w1
      | Returned (Inr resp) w1 \<Rightarrow>
          if \<not> py_truthy resp then
            main_loop_upto limit srv token urls answers
              (log_error ''Error getting secret at %s'' [PStr url] w1)
          else main_loop_upto limit srv token urls (answers @ [resp]) w1)"

definition main_upto :: "nat \<Rightarrow> server \<Rightarrow> unit progress" where
  "main_upto limit srv =
     (case try_login_upto limit srv 0 start of
        Running w1 \<Rightarrow> Running w1
      | Returned (Inl e) w1 \<Rightarrow> Returned (Inl e) w1
      | Returned (Inr token) w1 \<Rightarrow>
          (case main_loop_upto limit srv token secret_urls [] w1 of
             Running w2 \<Rightarrow> Running w2
           | Returned (Inl e) w2 \<Rightarrow> Returned (Inl e) w2
           | Returned (Inr answers) w2 \<Rightarrow> Returned (Inr ()) (log_answers answers w2)))"

text \<open>The requests sent when the observation stops.\<close>

definition observed :: "'a progress \<Rightarrow> request list" where
  "observed p = sent (progress_world p)"

subsection \<open>The token a fetch presents\<close>

text \<open>
  The token that \<^verbatim>\<open>main\<close> holds in its variable \<^verbatim>\<open>token\<close>: what its first call of
  \<^verbatim>\<open>try_login\<close> returns, when it returns a value.
\<close>

definition snapshot :: "server \<Rightarrow> pyval option" where
  "snapshot srv =
     (case try_login srv start of
        None \<Rightarrow> None
      | Some (Inl e, w1) \<Rightarrow> None
      | Some (Inr token, w1) \<Rightarrow> Some token)"

text \<open>
  In a history, the fetch of \<open>u\<close> has logged in again: there is a login request after the
  first GET of \<open>u\<close>.
\<close>

fun relogged :: "string \<Rightarrow> request list \<Rightarrow> bool" where
  "relogged u [] = False"
| "relogged u (POST u' b # rs) = relogged u rs"
| "relogged u (GET u' t # rs) = (if u' = u then \<not> list_all is_GET rs else relogged u rs)"

text \<open>
  The invariant the code keeps. The token presented by a GET of \<open>u\<close> is the token returned
  by the most recent successful login before it when the fetch of \<open>u\<close> has logged in again
  before this GET, and the snapshot of \<^verbatim>\<open>main\<close> otherwise.
\<close>

definition fetch_token_invariant :: "server \<Rightarrow> request list \<Rightarrow> bool" where
  "fetch_token_invariant srv h =
     (\<forall>i\<in>{0..<length h}.
        case h ! i of
          POST u b \<Rightarrow> True
        | GET u t \<Rightarrow>
            if relogged u (take i h) then last_login_token srv (take i h) = Some t
            else snapshot srv = Some t)"

text \<open>
  The first login gives T1, every later login T2. The first GET of the first resource is
  answered with 401, the second with 200; every GET of the second resource is answered
  with 500.
\<close>

definition hanging_server :: server where
  "hanging_server h =
     (case rev h of
        [] \<Rightarrow> TransportError
      | POST u b # older \<Rightarrow>
          if older = [] then Response 200 (token_body ''T1'')
          else Response 200 (token_body ''T2'')
      | GET u t # older \<Rightarrow>
          if u = ''http://localhost:5000/api/secret1'' then
            (if filter is_GET older = [] then Response 401 None
             else Response 200 (answer_body ''A1''))
          else Response 500 None)"

section \<open>Basic facts\<close>

lemma sent_log [simp]:
  "sent (log_error m a w) = sent w"
  "sent (log_warning m a w) = sent w"
  "sent (log_info v w) = sent w"
  by (simp_all add: log_error_def log_warning_def log_info_def)

lemma sent_posted [simp]: "sent (posted w) = sent w @ [POST login_url creds]"
  by (simp add: posted_def)

lemma logs_posted [simp]: "logs (posted w) = logs w"
  by (simp add: posted_def)

lemma sent_fetched [simp]: "sent (fetched url token w) = sent w @ [GET url token]"
  by (simp add: fetched_def)

lemma logs_fetched [simp]: "logs (fetched url token w) = logs w"
  by (simp add: fetched_def)

lemma session_post_eq:
  "session_post srv login_url creds w = (srv (sent w @ [POST login_url creds]), posted w)"
  by (simp add: session_post_def posted_def Let_def)

lemma session_get_eq:
  "session_get srv url token w = (srv (sent w @ [GET url token]), fetched url token w)"
  by (simp add: session_get_def fetched_def Let_def)

subsection \<open>Induction over the runs of \<open>try_login\<close> that return\<close>

text \<open>
  One case for each way an iteration of the loop can end: the bound is reached, the
  transport raises, the status is 200, or the loop goes round once more.
\<close>

lemma try_login_loop_induct [consumes 1, case_names exhausted transport ok retry]:
  assumes run: "try_login_loop srv attempts w = Some y"
    and exhausted: "\<And>srv attempts w. \<not> attempts < MAX_RETRIES \<Longrightarrow>
          P srv attempts w (Inr PNone,
            log_error ''Too many login attempts %d/%d'' [PInt attempts, PInt MAX_RETRIES] w)"
    and transport: "\<And>srv attempts w. attempts < MAX_RETRIES \<Longrightarrow>
          srv (sent w @ [POST login_url creds]) = TransportError \<Longrightarrow>
          P srv attempts w (Inl ClientError, posted w)"
    and ok: "\<And>srv attempts w body. attempts < MAX_RETRIES \<Longrightarrow>
          srv (sent w @ [POST login_url creds]) = Response 200 body \<Longrightarrow>
          P srv attempts w (json_get body ''access_token'', posted w)"
    and retry: "\<And>srv attempts w status body y. attempts < MAX_RETRIES \<Longrightarrow>
          srv (sent w @ [POST login_url creds]) = Response status body \<Longrightarrow>
          status \<noteq> 200 \<Longrightarrow>
          try_login_loop srv attempts (posted w) = Some y \<Longrightarrow>
          P srv attempts (posted w) y \<Longrightarrow> P srv attempts w y"
  shows "P srv attempts w y"
proof (rule try_login_loop.raw_induct
    [where P = "\<lambda>srv attempts w y. try_login_loop srv attempts w = Some y \<and> P srv attempts w y",
      OF _ run, THEN conjunct2], goal_cases)
  case (1 f srv attempts w y)
  note IH = 1(1) and step = 1(2)
  note unfold = try_login_loop.simps [of srv attempts w]
  show ?case
  proof (cases "attempts < MAX_RETRIES")
    case False
    with step exhausted [of attempts srv w] show ?thesis
      by (auto simp: unfold)
  next
    case lt: True
    show ?thesis
    proof (cases "srv (sent w @ [POST login_url creds])")
      case TransportError
      with step lt transport [of attempts srv w] show ?thesis
        by (auto simp: unfold session_post_eq)
    next
      case (Response status body)
      show ?thesis
      proof (cases "status = 200")
        case True
        with step lt Response ok [of attempts srv w body] show ?thesis
          by (auto simp: unfold session_post_eq)
      next
        case False
        with step lt Response have "f srv attempts (posted w) = Some y"
          by (simp add: session_post_eq)
        from IH [OF this] have rec: "try_login_loop srv attempts (posted w) = Some y"
          and P: "P srv attempts (posted w) y" by simp_all
        from retry [OF lt Response False rec P] rec lt Response False show ?thesis
          by (simp add: unfold session_post_eq)
      qed
    qed
  qed
qed

text \<open>
  A login that returns has met a reply with status 200 or an exception of the transport:
  below the bound nothing else leaves the loop.
\<close>

lemma try_login_loop_returns:
  assumes "try_login_loop srv attempts w = Some y" and "attempts < MAX_RETRIES"
  shows "\<exists>k body. srv (sent w @ replicate (Suc k) (POST login_url creds)) = TransportError \<or>
            srv (sent w @ replicate (Suc k) (POST login_url creds)) = Response 200 body"
  using assms
proof (induct rule: try_login_loop_induct)
  case (exhausted srv attempts w)
  then show ?case by simp
next
  case (transport srv attempts w)
  then have "srv (sent w @ replicate (Suc 0) (POST login_url creds)) = TransportError"
    by simp
  then show ?case by blast
next
  case (ok srv attempts w body)
  then have "srv (sent w @ replicate (Suc 0) (POST login_url creds)) = Response 200 body"
    by simp
  then show ?case by blast
next
  case (retry srv attempts w status body y)
  then obtain k body' where
    "srv (sent (posted w) @ replicate (Suc k) (POST login_url creds)) = TransportError \<or>
     srv (sent (posted w) @ replicate (Suc k) (POST login_url creds)) = Response 200 body'"
    by blast
  then have
    "srv (sent w @ replicate (Suc (Suc k)) (POST login_url creds)) = TransportError \<or>
     srv (sent w @ replicate (Suc (Suc k)) (POST login_url creds)) = Response 200 body'"
    by simp
  then show ?case by blast
qed

lemma try_login_diverges:
  assumes "\<And>k. \<exists>status body.
      srv (sent w @ replicate (Suc k) (POST login_url creds)) = Response status body \<and>
      status \<noteq> 200"
  shows "try_login srv w = None"
proof (cases "try_login srv w")
  case None
  then show ?thesis .
next
  case (Some y)
  then have "try_login_loop srv 0 w = Some y"
    by (simp add: try_login_def)
  from try_login_loop_returns [OF this] obtain k body where
    "srv (sent w @ replicate (Suc k) (POST login_url creds)) = TransportError \<or>
     srv (sent w @ replicate (Suc k) (POST login_url creds)) = Response 200 body"
    by (auto simp: MAX_RETRIES_def)
  with assms [of k] show ?thesis by auto
qed

lemma sent_warned [simp]: "sent (warned w) = sent w"
  by (simp add: warned_def)

lemma json_get_Inr:
  "json_get body key = Inr v \<Longrightarrow> \<exists>kvs. body = Some (PDict kvs) \<and> v = dict_get kvs key"
  by (cases "(body, key)" rule: json_get.cases) auto

subsection \<open>One iteration of each loop\<close>

lemma try_login_200:
  assumes "srv (sent w @ [POST login_url creds]) = Response 200 body"
  shows "try_login srv w = Some (json_get body ''access_token'', posted w)"
  using assms
  by (simp add: try_login_def try_login_loop.simps [of srv 0 w] MAX_RETRIES_def session_post_eq)

lemma try_get_loop_unfold:
  "try_get_loop srv url attempts token w =
     (if attempts < MAX_RETRIES then
        (case srv (sent w @ [GET url token]) of
           TransportError \<Rightarrow> Some (Inl ClientError, fetched url token w)
         | Response status body \<Rightarrow>
             if status = 200 then Some (json_get body ''answer'', fetched url token w)
             else if status = 401 then
               (case try_login srv (warned (fetched url token w)) of
                  None \<Rightarrow> None
                | Some (Inl e, w2) \<Rightarrow> Some (Inl e, w2)
                | Some (Inr token', w2) \<Rightarrow>
                    if \<not> py_truthy token' then
                      Some (Inr PNone, log_error ''Error getting new access token'' [] w2)
                    else try_get_loop srv url attempts token' w2)
             else try_get_loop srv url attempts token (fetched url token w))
      else
        Some (Inr PNone,
              log_error ''Too many login attempts %d/%d'' [PInt attempts, PInt MAX_RETRIES] w))"
  by (subst try_get_loop.simps) (simp add: session_get_eq warned_def split: reply.splits)

lemma try_get_200:
  assumes "srv (sent w @ [GET url token]) = Response 200 body"
  shows "try_get srv url token w = Some (json_get body ''answer'', fetched url token w)"
  using assms
  by (simp add: try_get_def try_get_loop_unfold [of srv url 0 token w] MAX_RETRIES_def)

lemma try_get_loop_401_diverges:
  assumes "attempts < MAX_RETRIES"
    and "srv (sent w @ [GET url token]) = Response 401 body"
    and "try_login srv (warned (fetched url token w)) = None"
  shows "try_get_loop srv url attempts token w = None"
  using assms by (simp add: try_get_loop_unfold [of srv url attempts token w])

subsection \<open>Induction over the runs of \<open>try_get\<close> that return\<close>

lemma try_get_loop_induct
  [consumes 1, case_names exhausted transport ok raised absent relogin other]:
  assumes run: "try_get_loop srv url attempts token w = Some y"
    and exhausted: "\<And>srv url attempts token w. \<not> attempts < MAX_RETRIES \<Longrightarrow>
          P srv url attempts token w (Inr PNone,
            log_error ''Too many login attempts %d/%d'' [PInt attempts, PInt MAX_RETRIES] w)"
    and transport: "\<And>srv url attempts token w. attempts < MAX_RETRIES \<Longrightarrow>
          srv (sent w @ [GET url token]) = TransportError \<Longrightarrow>
          P srv url attempts token w (Inl ClientError, fetched url token w)"
    and ok: "\<And>srv url attempts token w body. attempts < MAX_RETRIES \<Longrightarrow>
          srv (sent w @ [GET url token]) = Response 200 body \<Longrightarrow>
          P srv url attempts token w (json_get body ''answer'', fetched url token w)"
    and raised: "\<And>srv url attempts token w body e w2. attempts < MAX_RETRIES \<Longrightarrow>
          srv (sent w @ [GET url token]) = Response 401 body \<Longrightarrow>
          try_login srv (warned (fetched url token w)) = Some (Inl e, w2) \<Longrightarrow>
          P srv url attempts token w (Inl e, w2)"
    and absent: "\<And>srv url attempts token w body token' w2. attempts < MAX_RETRIES \<Longrightarrow>
          srv (sent w @ [GET url token]) = Response 401 body \<Longrightarrow>
          try_login srv (warned (fetched url token w)) = Some (Inr token', w2) \<Longrightarrow>
          \<not> py_truthy token' \<Longrightarrow>
          P srv url attempts token w
            (Inr PNone, log_error ''Error getting new access token'' [] w2)"
    and relogin: "\<And>srv url attempts token w body token' w2 y. attempts < MAX_RETRIES \<Longrightarrow>
          srv (sent w @ [GET url token]) = Response 401 body \<Longrightarrow>
          try_login srv (warned (fetched url token w)) = Some (Inr token', w2) \<Longrightarrow>
          py_truthy token' \<Longrightarrow>
          try_get_loop srv url attempts token' w2 = Some y \<Longrightarrow>
          P srv url attempts token' w2 y \<Longrightarrow> P srv url attempts token w y"
    and other: "\<And>srv url attempts token w status body y. attempts < MAX_RETRIES \<Longrightarrow>
          srv (sent w @ [GET url token]) = Response status body \<Longrightarrow>
          status \<noteq> 200 \<Longrightarrow> status \<noteq> 401 \<Longrightarrow>
          try_get_loop srv url attempts token (fetched url token w) = Some y \<Longrightarrow>
          P srv url attempts token (fetched url token w) y \<Longrightarrow> P srv url attempts token w y"
  shows "P srv url attempts token w y"
proof (rule try_get_loop.raw_induct
    [where P = "\<lambda>srv url attempts token w y.
        try_get_loop srv url attempts token w = Some y \<and> P srv url attempts token w y",
      OF _ run, THEN conjunct2], goal_cases)
  case (1 f srv url attempts token w y)
  note IH = 1(1) and step = 1(2) [unfolded session_get_eq prod.case warned_def [symmetric]]
  note unfold = try_get_loop_unfold [of srv url attempts token w]
  show ?case
  proof (cases "attempts < MAX_RETRIES")
    case False
    with step exhausted [of attempts srv url token w] show ?thesis
      by (auto simp: unfold)
  next
    case lt: True
    show ?thesis
    proof (cases "srv (sent w @ [GET url token])")
      case TransportError
      with step lt transport [of attempts srv w url token] show ?thesis
        by (auto simp: unfold)
    next
      case (Response status body)
      consider (s200) "status = 200" | (s401) "status = 401"
        | (sother) "status \<noteq> 200" "status \<noteq> 401"
        by blast
      then show ?thesis
      proof cases
        case s200
        with step lt Response ok [of attempts srv w url token body] show ?thesis
          by (auto simp: unfold)
      next
        case s401
        with step lt Response
        have st: "(case try_login srv (warned (fetched url token w)) of
                  None \<Rightarrow> None
                | Some (Inl e, w2) \<Rightarrow> Some (Inl e, w2)
                | Some (Inr token', w2) \<Rightarrow>
                    if \<not> py_truthy token' then
                      Some (Inr PNone, log_error ''Error getting new access token'' [] w2)
                    else f srv url attempts token' w2) = Some y"
          by simp
        then obtain r w2 where
          login: "try_login srv (warned (fetched url token w)) = Some (r, w2)"
          by (cases "try_login srv (warned (fetched url token w))") auto
        show ?thesis
        proof (cases r)
          case (Inl e)
          with st login have "y = (Inl e, w2)" by simp
          with raised [OF lt _ login [unfolded Inl]] Response s401 lt login Inl
          show ?thesis
            by (simp add: unfold)
        next
          case (Inr token')
          show ?thesis
          proof (cases "py_truthy token'")
            case False
            with st login Inr
            have "y = (Inr PNone, log_error ''Error getting new access token'' [] w2)"
              by simp
            with absent [OF lt _ login [unfolded Inr] False] Response s401 lt login Inr False
            show ?thesis
              by (simp add: unfold)
          next
            case True
            with st login Inr have "f srv url attempts token' w2 = Some y" by simp
            from IH [OF this] have rec: "try_get_loop srv url attempts token' w2 = Some y"
              and P: "P srv url attempts token' w2 y" by simp_all
            from relogin [OF lt _ login [unfolded Inr] True rec P]
              Response s401 lt login Inr True rec
            show ?thesis
              by (simp add: unfold)
          qed
        qed
      next
        case sother
        with step lt Response
        have "f srv url attempts token (fetched url token w) = Some y"
          by simp
        from IH [OF this]
        have rec: "try_get_loop srv url attempts token (fetched url token w) = Some y"
          and P: "P srv url attempts token (fetched url token w) y" by simp_all
        from other [OF lt Response sother rec P] rec lt Response sother show ?thesis
          by (simp add: unfold)
      qed
    qed
  qed
qed

subsection \<open>Tokens along the trace of a run\<close>

lemma last_login_token_GET [simp]:
  "last_login_token srv (h @ [GET u t]) = last_login_token srv h"
  by (simp add: last_login_token_def)

lemma last_login_token_POST:
  "last_login_token srv (h @ [POST u b]) =
     (case login_result (srv (h @ [POST u b])) of
        Some t \<Rightarrow> Some t
      | None \<Rightarrow> last_login_token srv h)"
  by (simp add: last_login_token_def split: option.split)

text \<open>What a login that returns has done.\<close>

lemma try_login_loop_effect:
  assumes "try_login_loop srv attempts w = Some y" and "attempts < MAX_RETRIES"
  shows "(\<exists>n. sent (snd y) = sent w @ replicate (Suc n) (POST login_url creds)) \<and>
         logs (snd y) = logs w \<and>
         (\<forall>token. fst y = Inr token \<longrightarrow> last_login_token srv (sent (snd y)) = Some token)"
  using assms
proof (induct rule: try_login_loop_induct)
  case (exhausted srv attempts w)
  then show ?case by simp
next
  case (transport srv attempts w)
  have "sent (posted w) = sent w @ replicate (Suc 0) (POST login_url creds)" by simp
  then have "\<exists>n. sent (posted w) = sent w @ replicate (Suc n) (POST login_url creds)"
    by blast
  then show ?case by simp
next
  case (ok srv attempts w body)
  have "sent (posted w) = sent w @ replicate (Suc 0) (POST login_url creds)" by simp
  then have "\<exists>n. sent (posted w) = sent w @ replicate (Suc n) (POST login_url creds)"
    by blast
  moreover have "last_login_token srv (sent (posted w)) = Some token"
    if "json_get body ''access_token'' = Inr token" for token
  proof -
    from json_get_Inr [OF that] obtain kvs where
      "body = Some (PDict kvs)" "token = dict_get kvs ''access_token''" by blast
    with ok show ?thesis
      by (simp add: last_login_token_POST)
  qed
  ultimately show ?case by simp
next
  case (retry srv attempts w status body y)
  then obtain n where "sent (snd y) = sent (posted w) @ replicate (Suc n) (POST login_url creds)"
    by blast
  then have "sent (snd y) = sent w @ replicate (Suc (Suc n)) (POST login_url creds)"
    by simp
  then have "\<exists>n. sent (snd y) = sent w @ replicate (Suc n) (POST login_url creds)"
    by blast
  with retry show ?case by simp
qed

lemma try_login_effect:
  assumes "try_login srv w = Some (res, w')"
  shows "(\<exists>n. sent w' = sent w @ replicate (Suc n) (POST login_url creds)) \<and>
         logs w' = logs w \<and>
         (\<forall>token. res = Inr token \<longrightarrow> last_login_token srv (sent w') = Some token)"
  using assms try_login_loop_effect [of srv 0 w "(res, w')"]
  by (simp add: try_login_def MAX_RETRIES_def)

subsection \<open>The first GET of each resource\<close>

lemma first_get_append:
  "first_get u (xs @ ys) = (case first_get u xs of Some t \<Rightarrow> Some t | None \<Rightarrow> first_get u ys)"
  by (induct u xs rule: first_get.induct) simp_all

lemma first_get_posts [simp]: "first_get u (replicate n (POST v b)) = None"
  by (induct n) simp_all

lemma try_get_loop_first:
  assumes "try_get_loop srv url attempts token w = Some y"
    and "attempts < MAX_RETRIES"
  shows "\<exists>rest. sent (snd y) = sent w @ GET url token # rest \<and>
           (\<forall>u. u \<noteq> url \<longrightarrow> first_get u rest = None)"
  using assms
proof (induct rule: try_get_loop_induct)
  case (exhausted srv url attempts token w)
  then show ?case by simp
next
  case (transport srv url attempts token w)
  have "sent (fetched url token w) = sent w @ GET url token # []" by simp
  then show ?case by (metis first_get.simps(1) snd_conv)
next
  case (ok srv url attempts token w body)
  have "sent (fetched url token w) = sent w @ GET url token # []" by simp
  then show ?case by (metis first_get.simps(1) snd_conv)
next
  case (raised srv url attempts token w body e w2)
  from try_login_effect [OF raised(3)] obtain n where
    "sent w2 = sent w @ GET url token # replicate (Suc n) (POST login_url creds)"
    by auto
  then show ?case by (metis first_get_posts snd_conv)
next
  case (absent srv url attempts token w body token' w2)
  from try_login_effect [OF absent(3)] obtain n where
    "sent w2 = sent w @ GET url token # replicate (Suc n) (POST login_url creds)"
    by auto
  then have "sent (log_error ''Error getting new access token'' [] w2) =
      sent w @ GET url token # replicate (Suc n) (POST login_url creds)"
    by simp
  then show ?case by (metis first_get_posts snd_conv)
next
  case (relogin srv url attempts token w body token' w2 y)
  from try_login_effect [OF relogin(3)] obtain n where
    n: "sent w2 = sent w @ GET url token # replicate (Suc n) (POST login_url creds)"
    by auto
  from relogin(6) [OF relogin(1)] obtain rest where
    rest: "sent (snd y) = sent w2 @ GET url token' # rest"
      "\<forall>u. u \<noteq> url \<longrightarrow> first_get u rest = None"
    by blast
  let ?rest = "replicate (Suc n) (POST login_url creds) @ GET url token' # rest"
  from n rest have "sent (snd y) = sent w @ GET url token # ?rest" by simp
  moreover from rest(2) have "\<forall>u. u \<noteq> url \<longrightarrow> first_get u ?rest = None"
    by (simp add: first_get_append)
  ultimately show ?case by blast
next
  case (other srv url attempts token w status body y)
  from other(6) [OF other(1)] obtain rest where
    rest: "sent (snd y) = sent (fetched url token w) @ GET url token # rest"
      "\<forall>u. u \<noteq> url \<longrightarrow> first_get u rest = None"
    by blast
  let ?rest = "GET url token # rest"
  from rest have "sent (snd y) = sent w @ GET url token # ?rest" by simp
  moreover from rest(2) have "\<forall>u. u \<noteq> url \<longrightarrow> first_get u ?rest = None"
    by simp
  ultimately show ?case by blast
qed

lemma try_get_first:
  assumes "try_get srv url token w = Some (res, w')"
  shows "\<exists>ext. sent w' = sent w @ ext \<and>
           (\<forall>u. first_get u ext = (if u = url then Some token else None))"
proof -
  from assms have "try_get_loop srv url 0 token w = Some (res, w')"
    by (simp add: try_get_def)
  from try_get_loop_first [OF this] obtain rest where
    rest: "sent w' = sent w @ GET url token # rest"
      "\<forall>u. u \<noteq> url \<longrightarrow> first_get u rest = None"
    by (auto simp: MAX_RETRIES_def)
  then have "\<forall>u. first_get u (GET url token # rest) = (if u = url then Some token else None)"
    by simp
  with rest(1) show ?thesis by blast
qed

lemma main_loop_first:
  assumes "main_loop srv token urls answers w = Some (res, w')"
  shows "\<exists>ext. sent w' = sent w @ ext \<and>
           (\<forall>u t. first_get u ext = Some t \<longrightarrow> t = token) \<and>
           (\<forall>a. res = Inr a \<longrightarrow> (\<forall>u\<in>set urls. first_get u ext = Some token))"
  using assms
proof (induct urls arbitrary: answers w)
  case Nil
  then have "sent w' = sent w @ []" by simp
  then show ?case by (metis empty_iff first_get.simps(1) list.set(1) option.distinct(1))
next
  case (Cons url urls)
  from Cons.prems(1) obtain r w1 where get: "try_get srv url token w = Some (r, w1)"
    by (cases "try_get srv url token w") auto
  from try_get_first [OF this] obtain ext1 where
    ext1: "sent w1 = sent w @ ext1"
      "\<forall>u. first_get u ext1 = (if u = url then Some token else None)"
    by blast
  show ?case
  proof (cases r)
    case (Inl e)
    with Cons.prems(1) get have "w' = w1" "res = Inl e" by auto
    with ext1 have "sent w' = sent w @ ext1"
      "\<forall>u t. first_get u ext1 = Some t \<longrightarrow> t = token"
      "\<forall>a. res = Inr a \<longrightarrow> (\<forall>u\<in>set (url # urls). first_get u ext1 = Some token)"
      by (auto split: if_splits)
    then show ?thesis by blast
  next
    case (Inr resp)
    let ?w2 = "if py_truthy resp then w1
               else log_error ''Error getting secret at %s'' [PStr url] w1"
    let ?answers = "if py_truthy resp then answers @ [resp] else answers"
    from Cons.prems(1) get Inr
    have "main_loop srv token urls ?answers ?w2 = Some (res, w')" by (simp split: if_splits)
    from Cons.hyps [OF this] obtain ext2 where
      ext2: "sent w' = sent ?w2 @ ext2"
        "\<forall>u t. first_get u ext2 = Some t \<longrightarrow> t = token"
        "\<forall>a. res = Inr a \<longrightarrow> (\<forall>u\<in>set urls. first_get u ext2 = Some token)"
      by blast
    have sent2: "sent ?w2 = sent w1" by simp
    from ext1 ext2 sent2 have a: "sent w' = sent w @ (ext1 @ ext2)" by simp
    from ext1(2) ext2(2) have b: "\<forall>u t. first_get u (ext1 @ ext2) = Some t \<longrightarrow> t = token"
      by (auto simp: first_get_append split: if_splits)
    from ext1(2) ext2(3)
    have c: "\<forall>a. res = Inr a \<longrightarrow>
        (\<forall>u\<in>set (url # urls). first_get u (ext1 @ ext2) = Some token)"
      by (auto simp: first_get_append)
    from a b c show ?thesis by blast
  qed
qed

text \<open>What \<^verbatim>\<open>main\<close> is, once its first login has returned a token.\<close>

lemma main_after_login:
  assumes "try_login srv start = Some (Inr snap, w1)"
    and "main srv = Some (res, w')"
  shows "\<exists>r w2. main_loop srv snap secret_urls [] w1 = Some (r, w2) \<and> sent w' = sent w2 \<and>
           (res = Inr () \<longrightarrow> (\<exists>a. r = Inr a))"
proof -
  from assms obtain r w2 where loop: "main_loop srv snap secret_urls [] w1 = Some (r, w2)"
    by (cases "main_loop srv snap secret_urls [] w1") (auto simp: main_def)
  have sent_answers: "sent (log_answers as w) = sent w" for as w
    by (induct as arbitrary: w) simp_all
  from assms loop have "sent w' = sent w2 \<and> (res = Inr () \<longrightarrow> (\<exists>a. r = Inr a))"
    by (cases r) (auto simp: main_def sent_answers)
  with loop show ?thesis by blast
qed

text \<open>
  In a run of \<^verbatim>\<open>main\<close> that ends, the first GET of every URL presents what the first
  login returned, and a run that returns without an exception has fetched every URL.
\<close>

lemma main_first_gets:
  assumes "try_login srv start = Some (Inr snap, w1)"
    and "main srv = Some (res, w')"
  shows "(\<forall>u t. first_get u (sent w') = Some t \<longrightarrow> t = snap) \<and>
         (res = Inr () \<longrightarrow> (\<forall>u\<in>set secret_urls. first_get u (sent w') = Some snap))"
proof -
  from main_after_login [OF assms] obtain r w2 where
    loop: "main_loop srv snap secret_urls [] w1 = Some (r, w2)" and sent: "sent w' = sent w2"
    and ok: "res = Inr () \<longrightarrow> (\<exists>a. r = Inr a)"
    by blast
  from try_login_effect [OF assms(1)] obtain n where
    n: "sent w1 = replicate (Suc n) (POST login_url creds)"
    by (auto simp: start_def)
  from main_loop_first [OF loop] obtain ext where
    ext: "sent w2 = sent w1 @ ext"
      "\<forall>u t. first_get u ext = Some t \<longrightarrow> t = snap"
      "\<forall>a. r = Inr a \<longrightarrow> (\<forall>u\<in>set secret_urls. first_get u ext = Some snap)"
    by blast
  have "first_get u (sent w') = first_get u ext" for u
    using sent ext(1) n first_get_posts [of u "Suc n" login_url creds]
    by (simp add: first_get_append del: first_get_posts replicate_Suc)
  with ext(2,3) ok show ?thesis
    by auto
qed

lemma main_returned_login:
  assumes "main srv = Some (Inr (), w')"
  shows "\<exists>snap w1. try_login srv start = Some (Inr snap, w1)"
proof (cases "try_login srv start")
  case None
  with assms show ?thesis by (simp add: main_def)
next
  case (Some y)
  obtain res w1 where y: "y = (res, w1)" by (cases y)
  with Some assms show ?thesis
    by (cases res) (auto simp: main_def)
qed

text \<open>
  A fetch that returns has met a reply with status 200 or 401, or an exception of the
  transport: on any other status it sends the same GET again.
\<close>

lemma try_get_loop_returns:
  assumes "try_get_loop srv url attempts token w = Some y" and "attempts < MAX_RETRIES"
  shows "\<exists>k. srv (sent w @ replicate (Suc k) (GET url token)) = TransportError \<or>
           (\<exists>body. srv (sent w @ replicate (Suc k) (GET url token)) = Response 200 body) \<or>
           (\<exists>body. srv (sent w @ replicate (Suc k) (GET url token)) = Response 401 body)"
  using assms
proof (induct rule: try_get_loop_induct)
  case (exhausted srv url attempts token w)
  then show ?case by simp
next
  case (transport srv url attempts token w)
  then have "srv (sent w @ replicate (Suc 0) (GET url token)) = TransportError" by simp
  then show ?case by blast
next
  case (ok srv url attempts token w body)
  then have "srv (sent w @ replicate (Suc 0) (GET url token)) = Response 200 body" by simp
  then show ?case by blast
next
  case (raised srv url attempts token w body e w2)
  then have "srv (sent w @ replicate (Suc 0) (GET url token)) = Response 401 body" by simp
  then show ?case by blast
next
  case (absent srv url attempts token w body token' w2)
  then have "srv (sent w @ replicate (Suc 0) (GET url token)) = Response 401 body" by simp
  then show ?case by blast
next
  case (relogin srv url attempts token w body token' w2 y)
  then have "srv (sent w @ replicate (Suc 0) (GET url token)) = Response 401 body" by simp
  then show ?case by blast
next
  case (other srv url attempts token w status body y)
  from other(6) [OF other(1)] obtain k where
    "srv (sent (fetched url token w) @ replicate (Suc k) (GET url token)) = TransportError \<or>
     (\<exists>body. srv (sent (fetched url token w) @ replicate (Suc k) (GET url token))
        = Response 200 body) \<or>
     (\<exists>body. srv (sent (fetched url token w) @ replicate (Suc k) (GET url token))
        = Response 401 body)"
    by blast
  then have
    "srv (sent w @ replicate (Suc (Suc k)) (GET url token)) = TransportError \<or>
     (\<exists>body. srv (sent w @ replicate (Suc (Suc k)) (GET url token)) = Response 200 body) \<or>
     (\<exists>body. srv (sent w @ replicate (Suc (Suc k)) (GET url token)) = Response 401 body)"
    by simp
  then show ?case by blast
qed

text \<open>Against \<open>hanging_server\<close> the fetch of the second resource never returns.\<close>

lemma main_hanging_server: "main hanging_server = None"
proof -
  let ?u1 = "''http://localhost:5000/api/secret1''"
  let ?u2 = "''http://localhost:5000/api/secret2''"
  let ?w1 = "\<lparr>sent = [POST login_url creds, GET ?u1 (PStr ''T1''), POST login_url creds,
                     GET ?u1 (PStr ''T2'')],
              logs = [(WARNING, PStr ''401 Unauthorized, retrying...'', [])]\<rparr>"
  have login: "try_login hanging_server start = Some (Inr (PStr ''T1''), posted start)"
    by code_simp
  have g1: "try_get hanging_server ?u1 (PStr ''T1'') (posted start)
      = Some (Inr (PStr ''A1''), ?w1)"
    by code_simp
  have always_500: "hanging_server (h @ replicate (Suc k) (GET ?u2 t)) = Response 500 None"
    for h k t
  proof -
    have "rev (h @ replicate (Suc k) (GET ?u2 t)) =
        GET ?u2 t # (replicate k (GET ?u2 t) @ rev h)"
      by (simp add: replicate_append_same)
    then show ?thesis
      unfolding hanging_server_def by simp
  qed
  have g2: "try_get hanging_server ?u2 (PStr ''T1'') ?w1 = None"
  proof (cases "try_get hanging_server ?u2 (PStr ''T1'') ?w1")
    case None
    then show ?thesis .
  next
    case (Some y)
    then have "try_get_loop hanging_server ?u2 0 (PStr ''T1'') ?w1 = Some y"
      by (simp add: try_get_def)
    from try_get_loop_returns [OF this] obtain k where
      "hanging_server (sent ?w1 @ replicate (Suc k) (GET ?u2 (PStr ''T1''))) = TransportError \<or>
       (\<exists>body. hanging_server (sent ?w1 @ replicate (Suc k) (GET ?u2 (PStr ''T1'')))
          = Response 200 body) \<or>
       (\<exists>body. hanging_server (sent ?w1 @ replicate (Suc k) (GET ?u2 (PStr ''T1'')))
          = Response 401 body)"
      by (auto simp: MAX_RETRIES_def)
    then show ?thesis
      by (simp only: always_500) simp
  qed
  show ?thesis
    by (simp add: main_def login secret_urls_def g1 g2)
qed

section \<open>Runs observed for a bounded number of requests\<close>

lemma observed_simps [simp]:
  "observed (Running w) = sent w"
  "observed (Returned r w) = sent w"
  by (simp_all add: observed_def progress_world_def)

lemma try_login_upto_unfold:
  "try_login_upto limit srv attempts w =
     (if attempts < MAX_RETRIES then
        if limit \<le> length (sent w) then Running w
        else
          (case srv (sent w @ [POST login_url creds]) of
             TransportError \<Rightarrow> Returned (Inl ClientError) (posted w)
           | Response status body \<Rightarrow>
               if status = 200 then Returned (json_get body ''access_token'') (posted w)
               else try_login_upto limit srv attempts (posted w))
      else
        Returned (Inr PNone)
          (log_error ''Too many login attempts %d/%d'' [PInt attempts, PInt MAX_RETRIES] w))"
  by (subst try_login_upto.simps) (simp add: session_post_eq split: reply.splits)

lemma try_get_upto_unfold:
  "try_get_upto limit srv url attempts token w =
     (if attempts < MAX_RETRIES then
        if limit \<le> length (sent w) then Running w
        else
          (case srv (sent w @ [GET url token]) of
             TransportError \<Rightarrow> Returned (Inl ClientError) (fetched url token w)
           | Response status body \<Rightarrow>
               if status = 200 then Returned (json_get body ''answer'') (fetched url token w)
               else if status = 401 then
                 (case try_login_upto limit srv 0 (warned (fetched url token w)) of
                    Running w2 \<Rightarrow> Running w2
                  | Returned (Inl e) w2 \<Rightarrow> Returned (Inl e) w2
                  | Returned (Inr token') w2 \<Rightarrow>
                      if \<not> py_truthy token' then
                        Returned (Inr PNone)
                          (log_error ''Error getting new access token'' [] w2)
                      else try_get_upto limit srv url attempts token' w2)
               else try_get_upto limit srv url attempts token (fetched url token w))
      else
        Returned (Inr PNone)
          (log_error ''Too many login attempts %d/%d'' [PInt attempts, PInt MAX_RETRIES] w))"
  by (subst try_get_upto.simps) (simp add: session_get_eq warned_def split: reply.splits)

subsection \<open>Induction over the observed runs\<close>

lemma try_login_upto_induct [case_names exhausted cut transport ok retry]:
  assumes exhausted: "\<And>limit srv attempts w. \<not> attempts < MAX_RETRIES \<Longrightarrow>
          P limit srv attempts w (Returned (Inr PNone)
            (log_error ''Too many login attempts %d/%d'' [PInt attempts, PInt MAX_RETRIES] w))"
    and cut: "\<And>limit srv attempts w. attempts < MAX_RETRIES \<Longrightarrow>
          limit \<le> length (sent w) \<Longrightarrow> P limit srv attempts w (Running w)"
    and transport: "\<And>limit srv attempts w. attempts < MAX_RETRIES \<Longrightarrow>
          length (sent w) < limit \<Longrightarrow>
          srv (sent w @ [POST login_url creds]) = TransportError \<Longrightarrow>
          P limit srv attempts w (Returned (Inl ClientError) (posted w))"
    and ok: "\<And>limit srv attempts w body. attempts < MAX_RETRIES \<Longrightarrow>
          length (sent w) < limit \<Longrightarrow>
          srv (sent w @ [POST login_url creds]) = Response 200 body \<Longrightarrow>
          P limit srv attempts w (Returned (json_get body ''access_token'') (posted w))"
    and retry: "\<And>limit srv attempts w status body. attempts < MAX_RETRIES \<Longrightarrow>
          length (sent w) < limit \<Longrightarrow>
          srv (sent w @ [POST login_url creds]) = Response status body \<Longrightarrow>
          status \<noteq> 200 \<Longrightarrow>
          P limit srv attempts (posted w) (try_login_upto limit srv attempts (posted w)) \<Longrightarrow>
          P limit srv attempts w (try_login_upto limit srv attempts (posted w))"
  shows "P limit srv attempts w (try_login_upto limit srv attempts w)"
proof (induct limit srv attempts w rule: try_login_upto.induct)
  case (1 limit srv attempts w)
  note unfold = try_login_upto_unfold [of limit srv attempts w]
  show ?case
  proof (cases "attempts < MAX_RETRIES")
    case False
    with exhausted [of attempts limit srv w] show ?thesis
      by (simp add: unfold)
  next
    case lt: True
    show ?thesis
    proof (cases "limit \<le> length (sent w)")
      case True
      with lt cut [of attempts limit w srv] show ?thesis
        by (simp add: unfold)
    next
      case False
      then have room: "length (sent w) < limit" by simp
      show ?thesis
      proof (cases "srv (sent w @ [POST login_url creds])")
        case TransportError
        with lt room transport [of attempts w limit srv] show ?thesis
          by (simp add: unfold)
      next
        case (Response status body)
        show ?thesis
        proof (cases "status = 200")
          case True
          with lt room Response ok [of attempts w limit srv body] show ?thesis
            by (simp add: unfold)
        next
          case False
          from lt room Response False
          have "P limit srv attempts (posted w) (try_login_upto limit srv attempts (posted w))"
            by (intro 1) (auto simp: session_post_eq)
          from retry [OF lt room Response False this] lt room Response False show ?thesis
            by (simp add: unfold)
        qed
      qed
    qed
  qed
qed

lemma try_get_upto_induct
  [case_names exhausted cut transport ok waiting raised absent relogin other]:
  assumes exhausted: "\<And>limit srv url attempts token w. \<not> attempts < MAX_RETRIES \<Longrightarrow>
          P limit srv url attempts token w (Returned (Inr PNone)
            (log_error ''Too many login attempts %d/%d'' [PInt attempts, PInt MAX_RETRIES] w))"
    and cut: "\<And>limit srv url attempts token w. attempts < MAX_RETRIES \<Longrightarrow>
          limit \<le> length (sent w) \<Longrightarrow> P limit srv url attempts token w (Running w)"
    and transport: "\<And>limit srv url attempts token w. attempts < MAX_RETRIES \<Longrightarrow>
          length (sent w) < limit \<Longrightarrow>
          srv (sent w @ [GET url token]) = TransportError \<Longrightarrow>
          P limit srv url attempts token w (Returned (Inl ClientError) (fetched url token w))"
    and ok: "\<And>limit srv url attempts token w body. attempts < MAX_RETRIES \<Longrightarrow>
          length (sent w) < limit \<Longrightarrow>
          srv (sent w @ [GET url token]) = Response 200 body \<Longrightarrow>
          P limit srv url attempts token w
            (Returned (json_get body ''answer'') (fetched url token w))"
    and waiting: "\<And>limit srv url attempts token w body w2. attempts < MAX_RETRIES \<Longrightarrow>
          length (sent w) < limit \<Longrightarrow>
          srv (sent w @ [GET url token]) = Response 401 body \<Longrightarrow>
          try_login_upto limit srv 0 (warned (fetched url token w)) = Running w2 \<Longrightarrow>
          P limit srv url attempts token w (Running w2)"
    and raised: "\<And>limit srv url attempts token w body e w2. attempts < MAX_RETRIES \<Longrightarrow>
          length (sent w) < limit \<Longrightarrow>
          srv (sent w @ [GET url token]) = Response 401 body \<Longrightarrow>
          try_login_upto limit srv 0 (warned (fetched url token w)) = Returned (Inl e) w2 \<Longrightarrow>
          P limit srv url attempts token w (Returned (Inl e) w2)"
    and absent: "\<And>limit srv url attempts token w body token' w2.
          attempts < MAX_RETRIES \<Longrightarrow>
          length (sent w) < limit \<Longrightarrow>
          srv (sent w @ [GET url token]) = Response 401 body \<Longrightarrow>
          try_login_upto limit srv 0 (warned (fetched url token w))
            = Returned (Inr token') w2 \<Longrightarrow>
          \<not> py_truthy token' \<Longrightarrow>
          P limit srv url attempts token w
            (Returned (Inr PNone) (log_error ''Error getting new access token'' [] w2))"
    and relogin: "\<And>limit srv url attempts token w body token' w2.
          attempts < MAX_RETRIES \<Longrightarrow>
          length (sent w) < limit \<Longrightarrow>
          srv (sent w @ [GET url token]) = Response 401 body \<Longrightarrow>
          try_login_upto limit srv 0 (warned (fetched url token w))
            = Returned (Inr token') w2 \<Longrightarrow>
          py_truthy token' \<Longrightarrow>
          P limit srv url attempts token' w2 (try_get_upto limit srv url attempts token' w2) \<Longrightarrow>
          P limit srv url attempts token w (try_get_upto limit srv url attempts token' w2)"
    and other: "\<And>limit srv url attempts token w status body. attempts < MAX_RETRIES \<Longrightarrow>
          length (sent w) < limit \<Longrightarrow>
          srv (sent w @ [GET url token]) = Response status body \<Longrightarrow>
          status \<noteq> 200 \<Longrightarrow> status \<noteq> 401 \<Longrightarrow>
          P limit srv url attempts token (fetched url token w)
            (try_get_upto limit srv url attempts token (fetched url token w)) \<Longrightarrow>
          P limit srv url attempts token w
            (try_get_upto limit srv url attempts token (fetched url token w))"
  shows "P limit srv url attempts token w (try_get_upto limit srv url attempts token w)"
proof (induct limit srv url attempts token w rule: try_get_upto.induct)
  case (1 limit srv url attempts token w)
  note unfold = try_get_upto_unfold [of limit srv url attempts token w]
  note IH = 1 [unfolded session_get_eq warned_def [symmetric]]
  show ?case
  proof (cases "attempts < MAX_RETRIES")
    case False
    with exhausted [of attempts limit srv url token w] show ?thesis
      by (simp add: unfold)
  next
    case lt: True
    show ?thesis
    proof (cases "limit \<le> length (sent w)")
      case True
      with lt cut [of attempts limit w srv url token] show ?thesis
        by (simp add: unfold)
    next
      case False
      then have room: "length (sent w) < limit" by simp
      show ?thesis
      proof (cases "srv (sent w @ [GET url token])")
        case TransportError
        with lt room transport [of attempts w limit srv url token] show ?thesis
          by (simp add: unfold)
      next
        case (Response status body)
        consider (s200) "status = 200" | (s401) "status = 401"
          | (sother) "status \<noteq> 200" "status \<noteq> 401"
          by blast
        then show ?thesis
        proof cases
          case s200
          with lt room Response ok [of attempts w limit srv url token body] show ?thesis
            by (simp add: unfold)
        next
          case s401
          note r401 = Response [unfolded s401]
          show ?thesis
          proof (cases "try_login_upto limit srv 0 (warned (fetched url token w))")
            case (Running w2)
            with waiting [OF lt room r401 Running] lt room r401 show ?thesis
              by (simp add: unfold)
          next
            case (Returned r w2)
            show ?thesis
            proof (cases r)
              case (Inl e)
              with raised [OF lt room r401 Returned [unfolded Inl]] lt room r401 Returned
              show ?thesis
                by (simp add: unfold)
            next
              case (Inr token')
              note login = Returned [unfolded Inr]
              show ?thesis
              proof (cases "py_truthy token'")
                case False
                with absent [OF lt room r401 login False] lt room r401 login show ?thesis
                  by (simp add: unfold)
              next
                case True
                have "P limit srv url attempts token' w2
                    (try_get_upto limit srv url attempts token' w2)"
                  by (rule IH(1) [OF lt False refl r401 _ refl Returned Inr])
                    (use True in simp_all)
                from relogin [OF lt room r401 login True this] lt room r401 login True
                show ?thesis
                  by (simp add: unfold)
              qed
            qed
          qed
        next
          case sother
          have "P limit srv url attempts token (fetched url token w)
              (try_get_upto limit srv url attempts token (fetched url token w))"
            by (rule IH(2) [OF lt False refl Response sother])
          from other [OF lt room Response sother this] lt room Response sother show ?thesis
            by (simp add: unfold)
        qed
      qed
    qed
  qed
qed

subsection \<open>The observed login\<close>

text \<open>An observed login that has returned is a login that returns, with the same result.\<close>

lemma try_login_upto_sound:
  "try_login_upto limit srv attempts w = Returned r w' \<Longrightarrow>
   try_login_loop srv attempts w = Some (r, w')"
proof -
  have "\<forall>r w'. try_login_upto limit srv attempts w = Returned r w' \<longrightarrow>
      try_login_loop srv attempts w = Some (r, w')"
  proof (induct rule: try_login_upto_induct)
    case (exhausted limit srv attempts w)
    then show ?case by (simp add: try_login_loop.simps [of srv attempts w])
  next
    case (cut limit srv attempts w)
    then show ?case by simp
  next
    case (transport limit srv attempts w)
    then show ?case by (simp add: try_login_loop.simps [of srv attempts w] session_post_eq)
  next
    case (ok limit srv attempts w body)
    then show ?case by (simp add: try_login_loop.simps [of srv attempts w] session_post_eq)
  next
    case (retry limit srv attempts w status body)
    then show ?case by (simp add: try_login_loop.simps [of srv attempts w] session_post_eq)
  qed
  then show "try_login_upto limit srv attempts w = Returned r w' \<Longrightarrow>
      try_login_loop srv attempts w = Some (r, w')"
    by blast
qed

text \<open>An observed login that is cut off has sent login requests only, up to the limit.\<close>

lemma try_login_upto_running:
  "try_login_upto limit srv attempts w = Running w' \<Longrightarrow>
   (\<exists>n. sent w' = sent w @ replicate n (POST login_url creds)) \<and>
   (length (sent w) \<le> limit \<longrightarrow> length (sent w') = limit)"
proof -
  have "\<forall>w'. try_login_upto limit srv attempts w = Running w' \<longrightarrow>
      (\<exists>n. sent w' = sent w @ replicate n (POST login_url creds)) \<and>
      (length (sent w) \<le> limit \<longrightarrow> length (sent w') = limit)"
  proof (induct rule: try_login_upto_induct)
    case (exhausted limit srv attempts w)
    then show ?case by simp
  next
    case (cut limit srv attempts w)
    have "sent w = sent w @ replicate 0 (POST login_url creds)" by simp
    with cut show ?case by (metis le_antisym progress.inject(1))
  next
    case (transport limit srv attempts w)
    then show ?case by simp
  next
    case (ok limit srv attempts w body)
    then show ?case by simp
  next
    case (retry limit srv attempts w status body)
    show ?case
    proof (intro allI impI)
      fix w'
      assume run: "try_login_upto limit srv attempts (posted w) = Running w'"
      with retry(5) obtain n where
        n: "sent w' = sent (posted w) @ replicate n (POST login_url creds)"
        and len: "length (sent (posted w)) \<le> limit \<longrightarrow> length (sent w') = limit"
        by blast
      from n have "sent w' = sent w @ replicate (Suc n) (POST login_url creds)"
        by simp
      then have "\<exists>n. sent w' = sent w @ replicate n (POST login_url creds)"
        by blast
      moreover from len retry(2) have "length (sent w') = limit"
        by simp
      ultimately show "(\<exists>n. sent w' = sent w @ replicate n (POST login_url creds)) \<and>
          (length (sent w) \<le> limit \<longrightarrow> length (sent w') = limit)"
        by blast
    qed
  qed
  then show "try_login_upto limit srv attempts w = Running w' \<Longrightarrow>
      (\<exists>n. sent w' = sent w @ replicate n (POST login_url creds)) \<and>
      (length (sent w) \<le> limit \<longrightarrow> length (sent w') = limit)"
    by blast
qed

subsection \<open>The invariant along a trace\<close>

lemma relogged_append:
  "relogged u (xs @ ys) =
     (if first_get u xs = None then relogged u ys
      else relogged u xs \<or> \<not> list_all is_GET ys)"
  by (induct u xs rule: relogged.induct) auto

lemma not_relogged: "first_get u h = None \<Longrightarrow> \<not> relogged u h"
  by (induct u h rule: relogged.induct) (auto split: if_splits)

lemma relogged_GET [simp]: "relogged u (h @ [GET u' t]) = relogged u h"
  by (auto simp: relogged_append not_relogged)

lemma relogged_posts:
  "relogged u (h @ replicate (Suc n) (POST v b)) = (first_get u h \<noteq> None)"
proof -
  have "relogged u (replicate k (POST v b)) = False" for k
    by (induct k) simp_all
  then show ?thesis
    by (simp add: relogged_append del: replicate_Suc) simp
qed

lemma first_get_GET [simp]: "first_get u (h @ [GET u t]) \<noteq> None"
  by (simp add: first_get_append split: option.split)

lemma fetch_token_invariant_iff:
  "fetch_token_invariant srv h =
     (\<forall>i<length h. \<forall>u t. h ! i = GET u t \<longrightarrow>
        (if relogged u (take i h) then last_login_token srv (take i h) = Some t
         else snapshot srv = Some t))"
  by (fastforce simp: fetch_token_invariant_def Ball_def split: request.splits)

lemma fetch_token_invariant_Nil [simp]: "fetch_token_invariant srv []"
  by (simp add: fetch_token_invariant_iff)

lemma fetch_token_invariant_POST [simp]:
  "fetch_token_invariant srv (h @ [POST u b]) = fetch_token_invariant srv h"
  by (auto simp: fetch_token_invariant_iff nth_append less_Suc_eq)

lemma fetch_token_invariant_posts [simp]:
  "fetch_token_invariant srv (h @ replicate n (POST u b)) = fetch_token_invariant srv h"
proof (induct n)
  case 0
  show ?case by simp
next
  case (Suc n)
  have "h @ replicate (Suc n) (POST u b) = (h @ replicate n (POST u b)) @ [POST u b]"
    by (simp add: replicate_append_same)
  with Suc show ?case
    by (simp only: fetch_token_invariant_POST)
qed

lemma fetch_token_invariant_GET:
  "fetch_token_invariant srv (h @ [GET u t]) =
     (fetch_token_invariant srv h \<and>
      (if relogged u h then last_login_token srv h = Some t else snapshot srv = Some t))"
  by (auto simp: fetch_token_invariant_iff nth_append less_Suc_eq)

text \<open>Under the invariant, the first GET of every URL presents the snapshot.\<close>

lemma first_get_nth:
  "first_get u h = Some t \<Longrightarrow>
   \<exists>i<length h. h ! i = GET u t \<and> first_get u (take i h) = None"
proof (induct u h rule: first_get.induct)
  case (1 u)
  then show ?case by simp
next
  case (2 u u' b rs)
  then obtain i where "i < length rs" "rs ! i = GET u t" "first_get u (take i rs) = None"
    by auto
  then have "Suc i < length (POST u' b # rs) \<and> (POST u' b # rs) ! Suc i = GET u t \<and>
      first_get u (take (Suc i) (POST u' b # rs)) = None"
    by simp
  then show ?case by blast
next
  case (3 u u' t' rs)
  show ?case
  proof (cases "u' = u")
    case True
    with 3(2) have "0 < length (GET u' t' # rs) \<and> (GET u' t' # rs) ! 0 = GET u t \<and>
        first_get u (take 0 (GET u' t' # rs)) = None"
      by simp
    then show ?thesis by blast
  next
    case False
    with 3 obtain i where "i < length rs" "rs ! i = GET u t" "first_get u (take i rs) = None"
      by auto
    with False have "Suc i < length (GET u' t' # rs) \<and> (GET u' t' # rs) ! Suc i = GET u t \<and>
        first_get u (take (Suc i) (GET u' t' # rs)) = None"
      by simp
    then show ?thesis by blast
  qed
qed

lemma invariant_first_get:
  assumes "fetch_token_invariant srv h" and "first_get u h = Some t"
  shows "snapshot srv = Some t"
proof -
  from first_get_nth [OF assms(2)] obtain i where
    i: "i < length h" "h ! i = GET u t" "first_get u (take i h) = None"
    by blast
  from not_relogged [OF i(3)] assms(1) i(1,2) show ?thesis
    by (auto simp: fetch_token_invariant_iff)
qed

subsection \<open>The observed fetch\<close>

lemma try_login_upto_within:
  "length (sent w) \<le> limit \<Longrightarrow>
   length (observed (try_login_upto limit srv attempts w)) \<le> limit"
proof -
  have "length (sent w) \<le> limit \<longrightarrow>
      length (observed (try_login_upto limit srv attempts w)) \<le> limit"
    by (induct rule: try_login_upto_induct) simp_all
  then show "length (sent w) \<le> limit \<Longrightarrow>
      length (observed (try_login_upto limit srv attempts w)) \<le> limit"
    by blast
qed

lemma try_login_upto_0_sound:
  assumes "try_login_upto limit srv 0 w = Returned r w'"
  shows "try_login srv w = Some (r, w')"
  using try_login_upto_sound [OF assms] by (simp add: try_login_def)

lemma try_get_upto_sound:
  "try_get_upto limit srv url attempts token w = Returned r w' \<Longrightarrow>
   try_get_loop srv url attempts token w = Some (r, w')"
proof -
  have "\<forall>r w'. try_get_upto limit srv url attempts token w = Returned r w' \<longrightarrow>
      try_get_loop srv url attempts token w = Some (r, w')"
  proof (induct rule: try_get_upto_induct)
    case (exhausted limit srv url attempts token w)
    then show ?case by (simp add: try_get_loop_unfold [of srv url attempts token w])
  next
    case (cut limit srv url attempts token w)
    then show ?case by simp
  next
    case (transport limit srv url attempts token w)
    then show ?case by (simp add: try_get_loop_unfold [of srv url attempts token w])
  next
    case (ok limit srv url attempts token w body)
    then show ?case by (simp add: try_get_loop_unfold [of srv url attempts token w])
  next
    case (waiting limit srv url attempts token w body w2)
    then show ?case by simp
  next
    case (raised limit srv url attempts token w body e w2)
    from try_login_upto_0_sound [OF raised(4)] raised(1,3) show ?case
      by (simp add: try_get_loop_unfold [of srv url attempts token w])
  next
    case (absent limit srv url attempts token w body token' w2)
    from try_login_upto_0_sound [OF absent(4)] absent(1,3,5) show ?case
      by (simp add: try_get_loop_unfold [of srv url attempts token w])
  next
    case (relogin limit srv url attempts token w body token' w2)
    from try_login_upto_0_sound [OF relogin(4)] relogin(1,3,5,6) show ?case
      by (simp add: try_get_loop_unfold [of srv url attempts token w])
  next
    case (other limit srv url attempts token w status body)
    then show ?case
      by (simp add: try_get_loop_unfold [of srv url attempts token w])
  qed
  then show "try_get_upto limit srv url attempts token w = Returned r w' \<Longrightarrow>
      try_get_loop srv url attempts token w = Some (r, w')"
    by blast
qed

text \<open>The observed fetch keeps the invariant, whether it has returned or not.\<close>

lemma try_get_upto_tokens:
  assumes "fetch_token_invariant srv (sent w)"
    and "if relogged url (sent w) then last_login_token srv (sent w) = Some token
         else snapshot srv = Some token"
  shows "fetch_token_invariant srv (observed (try_get_upto limit srv url attempts token w))"
proof -
  have "fetch_token_invariant srv (sent w) \<longrightarrow>
      (if relogged url (sent w) then last_login_token srv (sent w) = Some token
       else snapshot srv = Some token) \<longrightarrow>
      fetch_token_invariant srv (observed (try_get_upto limit srv url attempts token w))"
  proof (induct rule: try_get_upto_induct)
    case (exhausted limit srv url attempts token w)
    then show ?case by simp
  next
    case (cut limit srv url attempts token w)
    then show ?case by simp
  next
    case (transport limit srv url attempts token w)
    then show ?case by (simp add: fetch_token_invariant_GET)
  next
    case (ok limit srv url attempts token w body)
    then show ?case by (simp add: fetch_token_invariant_GET)
  next
    case (waiting limit srv url attempts token w body w2)
    from try_login_upto_running [OF waiting(4)] obtain n where
      "sent w2 = (sent w @ [GET url token]) @ replicate n (POST login_url creds)"
      by auto
    then show ?case
      by (simp only: observed_simps fetch_token_invariant_posts fetch_token_invariant_GET)
        simp_all
  next
    case (raised limit srv url attempts token w body e w2)
    from try_login_effect [OF try_login_upto_0_sound [OF raised(4)]] obtain n where
      "sent w2 = (sent w @ [GET url token]) @ replicate (Suc n) (POST login_url creds)"
      by auto
    then show ?case
      by (simp only: observed_simps fetch_token_invariant_posts fetch_token_invariant_GET)
        simp_all
  next
    case (absent limit srv url attempts token w body token' w2)
    from try_login_effect [OF try_login_upto_0_sound [OF absent(4)]] obtain n where
      "sent w2 = (sent w @ [GET url token]) @ replicate (Suc n) (POST login_url creds)"
      by auto
    then have "sent (log_error ''Error getting new access token'' [] w2) =
        (sent w @ [GET url token]) @ replicate (Suc n) (POST login_url creds)"
      by simp
    then show ?case
      by (simp only: observed_simps fetch_token_invariant_posts fetch_token_invariant_GET)
        simp_all
  next
    case (relogin limit srv url attempts token w body token' w2)
    from try_login_effect [OF try_login_upto_0_sound [OF relogin(4)]] obtain n where
      n: "sent w2 = (sent w @ [GET url token]) @ replicate (Suc n) (POST login_url creds)"
      and last: "last_login_token srv (sent w2) = Some token'"
      by auto
    from n have relogged: "relogged url (sent w2)"
      by (simp only: relogged_posts) simp_all
    show ?case
    proof (intro impI)
      assume inv: "fetch_token_invariant srv (sent w)"
        and tok: "if relogged url (sent w) then last_login_token srv (sent w) = Some token
          else snapshot srv = Some token"
      from n have "fetch_token_invariant srv (sent w2) =
          (fetch_token_invariant srv (sent w) \<and>
           (if relogged url (sent w) then last_login_token srv (sent w) = Some token
            else snapshot srv = Some token))"
        by (simp only: fetch_token_invariant_posts fetch_token_invariant_GET)
      with inv tok have "fetch_token_invariant srv (sent w2)"
        by blast
      with relogin(6) relogged last
      show "fetch_token_invariant srv (observed (try_get_upto limit srv url attempts token' w2))"
        by simp
    qed
  next
    case (other limit srv url attempts token w status body)
    then show ?case by (simp add: fetch_token_invariant_GET)
  qed
  with assms show ?thesis by blast
qed

text \<open>The observed fetch stays within the limit, and reaches it when it is cut off.\<close>

lemma try_get_upto_within:
  "length (sent w) \<le> limit \<Longrightarrow>
   length (observed (try_get_upto limit srv url attempts token w)) \<le> limit"
proof -
  have "length (sent w) \<le> limit \<longrightarrow>
      length (observed (try_get_upto limit srv url attempts token w)) \<le> limit"
  proof (induct rule: try_get_upto_induct)
    case (waiting limit srv url attempts token w body w2)
    from try_login_upto_within [of "warned (fetched url token w)" limit srv 0] waiting(2,4)
    show ?case by simp
  next
    case (raised limit srv url attempts token w body e w2)
    from try_login_upto_within [of "warned (fetched url token w)" limit srv 0] raised(2,4)
    show ?case by simp
  next
    case (absent limit srv url attempts token w body token' w2)
    from try_login_upto_within [of "warned (fetched url token w)" limit srv 0] absent(2,4)
    show ?case by simp
  next
    case (relogin limit srv url attempts token w body token' w2)
    from try_login_upto_within [of "warned (fetched url token w)" limit srv 0] relogin(2,4)
    have "length (sent w2) \<le> limit" by simp
    with relogin(6) show ?case by simp
  qed simp_all
  then show "length (sent w) \<le> limit \<Longrightarrow>
      length (observed (try_get_upto limit srv url attempts token w)) \<le> limit"
    by blast
qed

lemma try_get_upto_running:
  "try_get_upto limit srv url attempts token w = Running w' \<Longrightarrow>
   length (sent w) \<le> limit \<Longrightarrow> length (sent w') = limit"
proof -
  have "\<forall>w'. try_get_upto limit srv url attempts token w = Running w' \<longrightarrow>
      length (sent w) \<le> limit \<longrightarrow> length (sent w') = limit"
  proof (induct rule: try_get_upto_induct)
    case (waiting limit srv url attempts token w body w2)
    from try_login_upto_running [OF waiting(4)] waiting(2) show ?case
      by simp
  next
    case (relogin limit srv url attempts token w body token' w2)
    from try_login_upto_within [of "warned (fetched url token w)" limit srv 0] relogin(2,4)
    have "length (sent w2) \<le> limit" by simp
    with relogin(6) show ?case by simp
  qed simp_all
  then show "try_get_upto limit srv url attempts token w = Running w' \<Longrightarrow>
      length (sent w) \<le> limit \<Longrightarrow> length (sent w') = limit"
    by blast
qed

subsection \<open>The observed run of \<open>main\<close>\<close>

lemma sent_log_answers [simp]: "sent (log_answers answers w) = sent w"
  by (induct answers arbitrary: w) simp_all

lemma main_loop_upto_sound:
  "main_loop_upto limit srv token urls answers w = Returned r w' \<Longrightarrow>
   main_loop srv token urls answers w = Some (r, w')"
proof (induct urls arbitrary: answers w)
  case Nil
  then show ?case by simp
next
  case (Cons url urls)
  show ?case
  proof (cases "try_get_upto limit srv url 0 token w")
    case (Running w1)
    with Cons.prems show ?thesis by simp
  next
    case (Returned res w1)
    from try_get_upto_sound [OF this] have get: "try_get srv url token w = Some (res, w1)"
      by (simp add: try_get_def)
    show ?thesis
    proof (cases res)
      case (Inl e)
      with Cons.prems Returned get show ?thesis by simp
    next
      case (Inr resp)
      with Cons.prems Returned get Cons.hyps show ?thesis
        by (cases "py_truthy resp") simp_all
    qed
  qed
qed

lemma main_loop_upto_within:
  "length (sent w) \<le> limit \<Longrightarrow>
   length (observed (main_loop_upto limit srv token urls answers w)) \<le> limit"
proof (induct urls arbitrary: answers w)
  case Nil
  then show ?case by simp
next
  case (Cons url urls)
  from try_get_upto_within [OF Cons.prems, of srv url 0 token]
  have within: "length (observed (try_get_upto limit srv url 0 token w)) \<le> limit" .
  show ?case
  proof (cases "try_get_upto limit srv url 0 token w")
    case (Running w1)
    with within show ?thesis by simp
  next
    case (Returned res w1)
    with within have w1: "length (sent w1) \<le> limit" by simp
    show ?thesis
    proof (cases res)
      case (Inl e)
      with Returned w1 show ?thesis by simp
    next
      case (Inr resp)
      with Returned w1 Cons.hyps [of w1 "answers @ [resp]"]
        Cons.hyps [of "log_error ''Error getting secret at %s'' [PStr url] w1" answers]
      show ?thesis
        by (cases "py_truthy resp") simp_all
    qed
  qed
qed

lemma main_loop_upto_running:
  "main_loop_upto limit srv token urls answers w = Running w' \<Longrightarrow>
   length (sent w) \<le> limit \<Longrightarrow> length (sent w') = limit"
proof (induct urls arbitrary: answers w)
  case Nil
  then show ?case by simp
next
  case (Cons url urls)
  from try_get_upto_within [OF Cons.prems(2), of srv url 0 token]
  have within: "length (observed (try_get_upto limit srv url 0 token w)) \<le> limit" .
  show ?case
  proof (cases "try_get_upto limit srv url 0 token w")
    case (Running w1)
    with Cons.prems try_get_upto_running [OF Running] show ?thesis by simp
  next
    case (Returned res w1)
    with within have w1: "length (sent w1) \<le> limit" by simp
    show ?thesis
    proof (cases res)
      case (Inl e)
      with Returned Cons.prems show ?thesis by simp
    next
      case (Inr resp)
      with Returned w1 Cons.prems(1) Cons.hyps [of "answers @ [resp]" w1]
        Cons.hyps [of answers "log_error ''Error getting secret at %s'' [PStr url] w1"]
      show ?thesis
        by (cases "py_truthy resp") simp_all
    qed
  qed
qed

text \<open>The observed loop of \<^verbatim>\<open>main\<close> keeps the invariant.\<close>

lemma main_loop_upto_tokens:
  assumes "fetch_token_invariant srv (sent w)"
    and "snapshot srv = Some token"
    and "distinct urls"
    and "\<forall>u\<in>set urls. first_get u (sent w) = None"
  shows "fetch_token_invariant srv (observed (main_loop_upto limit srv token urls answers w))"
  using assms
proof (induct urls arbitrary: answers w)
  case Nil
  then show ?case by simp
next
  case (Cons url urls)
  from Cons.prems(4) have "first_get url (sent w) = None" by simp
  from not_relogged [OF this] Cons.prems(2)
  have tok: "if relogged url (sent w) then last_login_token srv (sent w) = Some token
      else snapshot srv = Some token"
    by simp
  from try_get_upto_tokens [OF Cons.prems(1) tok, of limit 0]
  have inv: "fetch_token_invariant srv (observed (try_get_upto limit srv url 0 token w))" .
  show ?case
  proof (cases "try_get_upto limit srv url 0 token w")
    case (Running w1)
    with inv show ?thesis by simp
  next
    case (Returned res w1)
    with inv have inv1: "fetch_token_invariant srv (sent w1)" by simp
    from try_get_upto_sound [OF Returned] have "try_get srv url token w = Some (res, w1)"
      by (simp add: try_get_def)
    from try_get_first [OF this] obtain ext where
      ext: "sent w1 = sent w @ ext"
        "\<forall>u. first_get u ext = (if u = url then Some token else None)"
      by blast
    from Cons.prems(3,4) ext have absent: "\<forall>u\<in>set urls. first_get u (sent w1) = None"
      by (auto simp: first_get_append)
    from Cons.prems(3) have distinct: "distinct urls" by simp
    show ?thesis
    proof (cases res)
      case (Inl e)
      with Returned inv1 show ?thesis by simp
    next
      case (Inr resp)
      show ?thesis
      proof (cases "py_truthy resp")
        case True
        from Cons.hyps [OF inv1 Cons.prems(2) distinct absent, of "answers @ [resp]"]
          Returned Inr True
        show ?thesis by simp
      next
        case False
        let ?w = "log_error ''Error getting secret at %s'' [PStr url] w1"
        from inv1 have a: "fetch_token_invariant srv (sent ?w)" by simp
        from absent have b: "\<forall>u\<in>set urls. first_get u (sent ?w) = None" by simp
        from Cons.hyps [OF a Cons.prems(2) distinct b, of answers] Returned Inr False
        show ?thesis by simp
      qed
    qed
  qed
qed

lemma main_upto_tokens: "fetch_token_invariant srv (observed (main_upto limit srv))"
proof (cases "try_login_upto limit srv 0 start")
  case (Running w1)
  from try_login_upto_running [OF this] obtain n where
    "sent w1 = [] @ replicate n (POST login_url creds)"
    by (auto simp: start_def)
  then have "fetch_token_invariant srv (sent w1)"
    by (simp only: fetch_token_invariant_posts fetch_token_invariant_Nil)
  with Running show ?thesis
    by (simp add: main_upto_def)
next
  case (Returned res w1)
  note login = try_login_upto_0_sound [OF Returned]
  from try_login_effect [OF login] obtain n where
    n: "sent w1 = [] @ replicate (Suc n) (POST login_url creds)"
    by (auto simp: start_def)
  then have inv1: "fetch_token_invariant srv (sent w1)"
    by (simp only: fetch_token_invariant_posts fetch_token_invariant_Nil)
  show ?thesis
  proof (cases res)
    case (Inl e)
    with Returned inv1 show ?thesis
      by (simp add: main_upto_def)
  next
    case (Inr token)
    with login have snap: "snapshot srv = Some token"
      by (simp add: snapshot_def)
    have distinct: "distinct secret_urls"
      by (simp add: secret_urls_def)
    from n have absent: "\<forall>u\<in>set secret_urls. first_get u (sent w1) = None"
      by (simp del: replicate_Suc)
    from main_loop_upto_tokens [OF inv1 snap distinct absent, of limit "[]"]
    have "fetch_token_invariant srv
        (observed (main_loop_upto limit srv token secret_urls [] w1))" .
    with Returned Inr show ?thesis
      by (cases "main_loop_upto limit srv token secret_urls [] w1")
        (auto simp: main_upto_def split: sum.splits)
  qed
qed

lemma main_upto_sound:
  assumes "main_upto limit srv = Returned r w'"
  shows "main srv = Some (r, w')"
proof (cases "try_login_upto limit srv 0 start")
  case (Running w1)
  with assms show ?thesis by (simp add: main_upto_def)
next
  case (Returned res w1)
  note login = try_login_upto_0_sound [OF Returned]
  show ?thesis
  proof (cases res)
    case (Inl e)
    with assms Returned login show ?thesis
      by (simp add: main_upto_def main_def)
  next
    case (Inr token)
    show ?thesis
    proof (cases "main_loop_upto limit srv token secret_urls [] w1")
      case (Running w2)
      with assms Returned Inr show ?thesis by (simp add: main_upto_def)
    next
      case loop: (Returned res2 w2)
      from main_loop_upto_sound [OF loop] assms Returned Inr login loop show ?thesis
        by (cases res2) (simp_all add: main_upto_def main_def)
    qed
  qed
qed

lemma main_upto_running:
  assumes "main_upto limit srv = Running w'"
  shows "length (sent w') = limit"
proof (cases "try_login_upto limit srv 0 start")
  case (Running w1)
  from try_login_upto_running [OF this] assms Running show ?thesis
    by (simp add: main_upto_def start_def)
next
  case (Returned res w1)
  from try_login_upto_within [of start limit srv 0] Returned
  have w1: "length (sent w1) \<le> limit"
    by (simp add: start_def)
  show ?thesis
  proof (cases res)
    case (Inl e)
    with assms Returned show ?thesis by (simp add: main_upto_def)
  next
    case (Inr token)
    show ?thesis
    proof (cases "main_loop_upto limit srv token secret_urls [] w1")
      case (Running w2)
      from main_loop_upto_running [OF this w1] assms Returned Inr Running show ?thesis
        by (simp add: main_upto_def)
    next
      case loop: (Returned res2 w2)
      with assms Returned Inr show ?thesis
        by (cases res2) (simp_all add: main_upto_def)
    qed
  qed
qed

subsection \<open>A run that returns is observed to its end\<close>

lemma try_login_upto_complete:
  assumes "try_login_loop srv attempts w = Some y"
    and "length (sent (snd y)) \<le> limit"
  shows "try_login_upto limit srv attempts w = Returned (fst y) (snd y)"
  using assms
proof (induct rule: try_login_loop_induct)
  case (exhausted srv attempts w)
  then show ?case by (simp add: try_login_upto_unfold [of limit srv attempts w])
next
  case (transport srv attempts w)
  then show ?case by (simp add: try_login_upto_unfold [of limit srv attempts w])
next
  case (ok srv attempts w body)
  then show ?case by (simp add: try_login_upto_unfold [of limit srv attempts w])
next
  case (retry srv attempts w status body y)
  from try_login_loop_effect [OF retry(4) retry(1)] retry(6)
  have "length (sent w) < limit"
    by auto
  with retry show ?case
    by (simp add: try_login_upto_unfold [of limit srv attempts w])
qed

lemma try_login_upto_0_complete:
  assumes "try_login srv w = Some (r, w')" and "length (sent w') \<le> limit"
  shows "try_login_upto limit srv 0 w = Returned r w'"
  using try_login_upto_complete [of srv 0 w "(r, w')" limit] assms
  by (simp add: try_login_def)

lemma try_get_upto_complete:
  assumes "try_get_loop srv url attempts token w = Some y"
    and "length (sent (snd y)) \<le> limit"
  shows "try_get_upto limit srv url attempts token w = Returned (fst y) (snd y)"
  using assms
proof (induct rule: try_get_loop_induct)
  case (exhausted srv url attempts token w)
  then show ?case by (simp add: try_get_upto_unfold [of limit srv url attempts token w])
next
  case (transport srv url attempts token w)
  then show ?case by (simp add: try_get_upto_unfold [of limit srv url attempts token w])
next
  case (ok srv url attempts token w body)
  then show ?case by (simp add: try_get_upto_unfold [of limit srv url attempts token w])
next
  case (raised srv url attempts token w body e w2)
  from try_login_effect [OF raised(3)] raised(4)
  have room: "length (sent w) < limit" by auto
  from try_login_upto_0_complete [OF raised(3)] raised(4)
  have "try_login_upto limit srv 0 (warned (fetched url token w)) = Returned (Inl e) w2"
    by simp
  with raised(1,2) room show ?case
    by (simp add: try_get_upto_unfold [of limit srv url attempts token w])
next
  case (absent srv url attempts token w body token' w2)
  from try_login_effect [OF absent(3)] absent(5)
  have room: "length (sent w) < limit" by auto
  from try_login_upto_0_complete [OF absent(3)] absent(5)
  have "try_login_upto limit srv 0 (warned (fetched url token w)) = Returned (Inr token') w2"
    by simp
  with absent(1,2,4) room show ?case
    by (simp add: try_get_upto_unfold [of limit srv url attempts token w])
next
  case (relogin srv url attempts token w body token' w2 y)
  from try_get_loop_first [OF relogin(5) relogin(1)] relogin(7)
  have w2: "length (sent w2) \<le> limit" by auto
  from try_login_effect [OF relogin(3)] w2
  have room: "length (sent w) < limit" by auto
  from try_login_upto_0_complete [OF relogin(3) w2]
  have "try_login_upto limit srv 0 (warned (fetched url token w)) = Returned (Inr token') w2" .
  with relogin(1,2,4) room relogin(6) [OF relogin(7)] show ?case
    by (simp add: try_get_upto_unfold [of limit srv url attempts token w])
next
  case (other srv url attempts token w status body y)
  from try_get_loop_first [OF other(5) other(1)] other(7)
  have room: "length (sent w) < limit" by auto
  with other(1-4) other(6) [OF other(7)] show ?case
    by (simp add: try_get_upto_unfold [of limit srv url attempts token w])
qed

lemma main_loop_upto_complete:
  assumes "main_loop srv token urls answers w = Some (r, w')"
    and "length (sent w') \<le> limit"
  shows "main_loop_upto limit srv token urls answers w = Returned r w'"
  using assms
proof (induct urls arbitrary: answers w)
  case Nil
  then show ?case by simp
next
  case (Cons url urls)
  from Cons.prems(1) obtain res w1 where get: "try_get srv url token w = Some (res, w1)"
    by (cases "try_get srv url token w") auto
  show ?case
  proof (cases res)
    case (Inl e)
    with Cons.prems get try_get_upto_complete [of srv url 0 token w "(res, w1)" limit]
    show ?thesis
      by (simp add: try_get_def)
  next
    case (Inr resp)
    let ?w2 = "if py_truthy resp then w1
               else log_error ''Error getting secret at %s'' [PStr url] w1"
    let ?answers = "if py_truthy resp then answers @ [resp] else answers"
    from Cons.prems(1) get Inr
    have rest: "main_loop srv token urls ?answers ?w2 = Some (r, w')"
      by (simp split: if_splits)
    from main_loop_first [OF rest] Cons.prems(2) have "length (sent w1) \<le> limit"
      by (auto split: if_splits)
    with get try_get_upto_complete [of srv url 0 token w "(res, w1)" limit]
    have "try_get_upto limit srv url 0 token w = Returned res w1"
      by (simp add: try_get_def)
    with Inr Cons.hyps [OF rest Cons.prems(2)] show ?thesis
      by (simp split: if_splits)
  qed
qed

lemma main_upto_complete:
  assumes "main srv = Some (r, w')" and "length (sent w') \<le> limit"
  shows "main_upto limit srv = Returned r w'"
proof -
  from assms(1) obtain res w1 where login: "try_login srv start = Some (res, w1)"
    by (cases "try_login srv start") (auto simp: main_def)
  show ?thesis
  proof (cases res)
    case (Inl e)
    with assms login try_login_upto_0_complete [OF login, of limit] show ?thesis
      by (simp add: main_def main_upto_def)
  next
    case (Inr token)
    from main_after_login [OF login [unfolded Inr] assms(1)] obtain r2 w2 where
      loop: "main_loop srv token secret_urls [] w1 = Some (r2, w2)"
      and sent: "sent w' = sent w2"
      by blast
    from main_loop_first [OF loop] sent assms(2) have "length (sent w1) \<le> limit"
      by auto
    from try_login_upto_0_complete [OF login this]
    have l: "try_login_upto limit srv 0 start = Returned res w1" .
    from main_loop_upto_complete [OF loop] sent assms(2)
    have "main_loop_upto limit srv token secret_urls [] w1 = Returned r2 w2"
      by simp
    with l Inr login loop assms(1) show ?thesis
      by (cases r2) (simp_all add: main_def main_upto_def)
  qed
qed

text \<open>
  So the observed runs are the runs of \<^verbatim>\<open>main\<close>: one that returns is observed to its
  end, and one that never returns is found running after any number of requests.
\<close>

lemma main_returns_iff:
  "main srv = Some (r, w') \<longleftrightarrow> (\<exists>limit. main_upto limit srv = Returned r w')"
  using main_upto_sound main_upto_complete [of srv r w' "length (sent w')"] by blast

lemma main_never_returns_iff:
  "main srv = None \<longleftrightarrow>
     (\<forall>limit. \<exists>w'. main_upto limit srv = Running w' \<and> length (sent w') = limit)"
proof
  assume none: "main srv = None"
  show "\<forall>limit. \<exists>w'. main_upto limit srv = Running w' \<and> length (sent w') = limit"
  proof
    fix limit
    show "\<exists>w'. main_upto limit srv = Running w' \<and> length (sent w') = limit"
    proof (cases "main_upto limit srv")
      case (Running w')
      with main_upto_running [OF Running] show ?thesis by simp
    next
      case (Returned r w')
      from main_upto_sound [OF this] none show ?thesis by simp
    qed
  qed
next
  assume running: "\<forall>limit. \<exists>w'. main_upto limit srv = Running w' \<and> length (sent w') = limit"
  show "main srv = None"
  proof (cases "main srv")
    case None
    then show ?thesis .
  next
    case (Some y)
    obtain r w' where y: "y = (r, w')" by (cases y)
    from main_upto_complete [of srv r w' "length (sent w')"] Some y
    have "main_upto (length (sent w')) srv = Returned r w'" by simp
    with running show ?thesis by (metis progress.distinct(1))
  qed
qed

subsection \<open>Observing longer extends what was observed\<close>

lemma try_login_upto_grows:
  "\<exists>ext. observed (try_login_upto limit srv attempts w) = sent w @ ext"
proof (induct rule: try_login_upto_induct)
  case (retry limit srv attempts w status body)
  then obtain ext where
    "observed (try_login_upto limit srv attempts (posted w)) = sent (posted w) @ ext"
    by blast
  then have "observed (try_login_upto limit srv attempts (posted w))
      = sent w @ (POST login_url creds # ext)"
    by simp
  then show ?case by blast
qed simp_all

lemma try_login_upto_returned_mono:
  assumes "try_login_upto limit srv 0 w = Returned r w'" and "limit \<le> limit'"
  shows "try_login_upto limit' srv 0 w = Returned r w'"
proof -
  from assms(1) have "length (sent w) < limit"
    by (cases "limit \<le> length (sent w)")
      (simp_all add: try_login_upto_unfold [of limit srv 0 w] MAX_RETRIES_def)
  with try_login_upto_within [of w limit srv 0] assms have "length (sent w') \<le> limit'"
    by simp
  from try_login_upto_0_complete [OF try_login_upto_0_sound [OF assms(1)] this]
  show ?thesis .
qed

lemma try_login_upto_mono:
  assumes "limit \<le> limit'"
  shows "\<exists>ext. observed (try_login_upto limit' srv attempts w)
           = observed (try_login_upto limit srv attempts w) @ ext"
proof -
  have "\<forall>limit'\<ge>limit. \<exists>ext. observed (try_login_upto limit' srv attempts w)
      = observed (try_login_upto limit srv attempts w) @ ext"
  proof (induct rule: try_login_upto_induct)
    case (exhausted limit srv attempts w)
    then show ?case
      by (simp add: try_login_upto_unfold [of _ srv attempts w])
  next
    case (cut limit srv attempts w)
    then show ?case
      using try_login_upto_grows [of _ srv attempts w] by simp
  next
    case (transport limit srv attempts w)
    then show ?case
      by (simp add: try_login_upto_unfold [of _ srv attempts w])
  next
    case (ok limit srv attempts w body)
    then show ?case
      by (simp add: try_login_upto_unfold [of _ srv attempts w])
  next
    case (retry limit srv attempts w status body)
    show ?case
    proof (intro allI impI)
      fix limit'
      assume le: "limit \<le> limit'"
      with retry(1-4)
      have "try_login_upto limit' srv attempts w
          = try_login_upto limit' srv attempts (posted w)"
        by (simp add: try_login_upto_unfold [of limit' srv attempts w])
      with retry(5) le
      show "\<exists>ext. observed (try_login_upto limit' srv attempts w)
          = observed (try_login_upto limit srv attempts (posted w)) @ ext"
        by simp
    qed
  qed
  with assms show ?thesis by blast
qed

lemma try_get_upto_grows:
  "\<exists>ext. observed (try_get_upto limit srv url attempts token w) = sent w @ ext"
proof (induct rule: try_get_upto_induct)
  case (transport limit srv url attempts token w)
  have "observed (Returned (Inl ClientError) (fetched url token w) :: pyval progress)
      = sent w @ [GET url token]"
    by simp
  then show ?case by blast
next
  case (ok limit srv url attempts token w body)
  have "observed (Returned (json_get body ''answer'') (fetched url token w))
      = sent w @ [GET url token]"
    by simp
  then show ?case by blast
next
  case (waiting limit srv url attempts token w body w2)
  from try_login_upto_grows [of limit srv 0 "warned (fetched url token w)"] waiting(4)
  obtain ext where "sent w2 = sent w @ (GET url token # ext)"
    by auto
  then show ?case by (metis observed_simps(1))
next
  case (raised limit srv url attempts token w body e w2)
  from try_login_upto_grows [of limit srv 0 "warned (fetched url token w)"] raised(4)
  obtain ext where "sent w2 = sent w @ (GET url token # ext)"
    by auto
  then show ?case by (metis observed_simps(2))
next
  case (absent limit srv url attempts token w body token' w2)
  from try_login_upto_grows [of limit srv 0 "warned (fetched url token w)"] absent(4)
  obtain ext where "sent w2 = sent w @ (GET url token # ext)"
    by auto
  then have "observed (Returned (Inr PNone)
      (log_error ''Error getting new access token'' [] w2) :: pyval progress)
      = sent w @ (GET url token # ext)"
    by simp
  then show ?case by blast
next
  case (relogin limit srv url attempts token w body token' w2)
  from try_login_upto_grows [of limit srv 0 "warned (fetched url token w)"] relogin(4)
  obtain ext where "sent w2 = sent w @ (GET url token # ext)"
    by auto
  moreover from relogin(6) obtain ext2 where
    "observed (try_get_upto limit srv url attempts token' w2) = sent w2 @ ext2"
    by blast
  ultimately have "observed (try_get_upto limit srv url attempts token' w2)
      = sent w @ ((GET url token # ext) @ ext2)"
    by simp
  then show ?case by blast
next
  case (other limit srv url attempts token w status body)
  then obtain ext where
    "observed (try_get_upto limit srv url attempts token (fetched url token w))
      = sent (fetched url token w) @ ext"
    by blast
  then have "observed (try_get_upto limit srv url attempts token (fetched url token w))
      = sent w @ (GET url token # ext)"
    by simp
  then show ?case by blast
qed simp_all

lemma try_get_upto_returned_mono:
  assumes "try_get_upto limit srv url 0 token w = Returned r w'" and "limit \<le> limit'"
  shows "try_get_upto limit' srv url 0 token w = Returned r w'"
proof -
  from assms(1) have "length (sent w) < limit"
    by (cases "limit \<le> length (sent w)")
      (simp_all add: try_get_upto_unfold [of limit srv url 0 token w] MAX_RETRIES_def)
  with try_get_upto_within [of w limit srv url 0 token] assms
  have "length (sent w') \<le> limit'"
    by simp
  with try_get_upto_complete [OF try_get_upto_sound [OF assms(1)], of limit']
  show ?thesis by simp
qed

lemma try_get_upto_401_extends:
  assumes "attempts < MAX_RETRIES" and "length (sent w) < limit"
    and "srv (sent w @ [GET url token]) = Response 401 body"
  shows "\<exists>ext. observed (try_get_upto limit srv url attempts token w)
           = observed (try_login_upto limit srv 0 (warned (fetched url token w))) @ ext"
proof (cases "try_login_upto limit srv 0 (warned (fetched url token w))")
  case (Running w2)
  with assms show ?thesis
    by (simp add: try_get_upto_unfold [of limit srv url attempts token w])
next
  case (Returned r w2)
  show ?thesis
  proof (cases r)
    case (Inl e)
    with assms Returned show ?thesis
      by (simp add: try_get_upto_unfold [of limit srv url attempts token w])
  next
    case (Inr token')
    show ?thesis
    proof (cases "py_truthy token'")
      case False
      with assms Returned Inr show ?thesis
        by (simp add: try_get_upto_unfold [of limit srv url attempts token w])
    next
      case True
      with assms Returned Inr
      have "try_get_upto limit srv url attempts token w
          = try_get_upto limit srv url attempts token' w2"
        by (simp add: try_get_upto_unfold [of limit srv url attempts token w])
      with try_get_upto_grows [of limit srv url attempts token' w2] Returned
      show ?thesis by simp
    qed
  qed
qed

lemma try_get_upto_mono:
  assumes "limit \<le> limit'"
  shows "\<exists>ext. observed (try_get_upto limit' srv url attempts token w)
           = observed (try_get_upto limit srv url attempts token w) @ ext"
proof -
  have "\<forall>limit'\<ge>limit. \<exists>ext. observed (try_get_upto limit' srv url attempts token w)
      = observed (try_get_upto limit srv url attempts token w) @ ext"
  proof (induct rule: try_get_upto_induct)
    case (exhausted limit srv url attempts token w)
    then show ?case
      by (simp add: try_get_upto_unfold [of _ srv url attempts token w])
  next
    case (cut limit srv url attempts token w)
    then show ?case
      using try_get_upto_grows [of _ srv url attempts token w] by simp
  next
    case (transport limit srv url attempts token w)
    then show ?case
      by (simp add: try_get_upto_unfold [of _ srv url attempts token w])
  next
    case (ok limit srv url attempts token w body)
    then show ?case
      by (simp add: try_get_upto_unfold [of _ srv url attempts token w])
  next
    case (waiting limit srv url attempts token w body w2)
    show ?case
    proof (intro allI impI)
      fix limit'
      assume le: "limit \<le> limit'"
      with waiting(2) have room: "length (sent w) < limit'" by simp
      from try_get_upto_401_extends [of attempts w limit' srv url token body, OF waiting(1) room waiting(3)] obtain ext1 where
        "observed (try_get_upto limit' srv url attempts token w)
          = observed (try_login_upto limit' srv 0 (warned (fetched url token w))) @ ext1"
        by blast
      moreover from try_login_upto_mono [OF le, of srv 0 "warned (fetched url token w)"]
        waiting(4)
      obtain ext2 where
        "observed (try_login_upto limit' srv 0 (warned (fetched url token w))) = sent w2 @ ext2"
        by auto
      ultimately have "observed (try_get_upto limit' srv url attempts token w)
          = observed (Running w2 :: pyval progress) @ (ext2 @ ext1)"
        by simp
      then show "\<exists>ext. observed (try_get_upto limit' srv url attempts token w)
          = observed (Running w2 :: pyval progress) @ ext"
        by blast
    qed
  next
    case (raised limit srv url attempts token w body e w2)
    show ?case
    proof (intro allI impI)
      fix limit'
      assume le: "limit \<le> limit'"
      from try_login_upto_returned_mono [OF raised(4) le] raised(1-3) le
      show "\<exists>ext. observed (try_get_upto limit' srv url attempts token w)
          = observed (Returned (Inl e) w2 :: pyval progress) @ ext"
        by (simp add: try_get_upto_unfold [of limit' srv url attempts token w])
    qed
  next
    case (absent limit srv url attempts token w body token' w2)
    show ?case
    proof (intro allI impI)
      fix limit'
      assume le: "limit \<le> limit'"
      from try_login_upto_returned_mono [OF absent(4) le] absent(1-3,5) le
      show "\<exists>ext. observed (try_get_upto limit' srv url attempts token w)
          = observed (Returned (Inr PNone)
              (log_error ''Error getting new access token'' [] w2) :: pyval progress) @ ext"
        by (simp add: try_get_upto_unfold [of limit' srv url attempts token w])
    qed
  next
    case (relogin limit srv url attempts token w body token' w2)
    show ?case
    proof (intro allI impI)
      fix limit'
      assume le: "limit \<le> limit'"
      from try_login_upto_returned_mono [OF relogin(4) le] relogin(1-3,5) le
      have "try_get_upto limit' srv url attempts token w
          = try_get_upto limit' srv url attempts token' w2"
        by (simp add: try_get_upto_unfold [of limit' srv url attempts token w])
      with relogin(6) le
      show "\<exists>ext. observed (try_get_upto limit' srv url attempts token w)
          = observed (try_get_upto limit srv url attempts token' w2) @ ext"
        by simp
    qed
  next
    case (other limit srv url attempts token w status body)
    show ?case
    proof (intro allI impI)
      fix limit'
      assume le: "limit \<le> limit'"
      with other(1-5)
      have "try_get_upto limit' srv url attempts token w
          = try_get_upto limit' srv url attempts token (fetched url token w)"
        by (simp add: try_get_upto_unfold [of limit' srv url attempts token w])
      with other(6) le
      show "\<exists>ext. observed (try_get_upto limit' srv url attempts token w)
          = observed (try_get_upto limit srv url attempts token (fetched url token w)) @ ext"
        by simp
    qed
  qed
  with assms show ?thesis by blast
qed

lemma main_loop_upto_grows:
  "\<exists>ext. observed (main_loop_upto limit srv token urls answers w) = sent w @ ext"
proof (induct urls arbitrary: answers w)
  case Nil
  show ?case by simp
next
  case (Cons url urls)
  from try_get_upto_grows [of limit srv url 0 token w] obtain ext1 where
    ext1: "observed (try_get_upto limit srv url 0 token w) = sent w @ ext1"
    by blast
  show ?case
  proof (cases "try_get_upto limit srv url 0 token w")
    case (Running w1)
    with ext1 show ?thesis by simp
  next
    case (Returned res w1)
    show ?thesis
    proof (cases res)
      case (Inl e)
      with Returned ext1 show ?thesis by simp
    next
      case (Inr resp)
      let ?w2 = "if py_truthy resp then w1
                 else log_error ''Error getting secret at %s'' [PStr url] w1"
      let ?answers = "if py_truthy resp then answers @ [resp] else answers"
      from Cons [of ?answers ?w2] obtain ext2 where
        "observed (main_loop_upto limit srv token urls ?answers ?w2) = sent ?w2 @ ext2"
        by blast
      with Returned ext1 have
        "observed (main_loop_upto limit srv token urls ?answers ?w2) = sent w @ (ext1 @ ext2)"
        by (simp split: if_splits)
      with Returned Inr show ?thesis
        by (cases "py_truthy resp") auto
    qed
  qed
qed

lemma main_loop_upto_mono:
  assumes "limit \<le> limit'"
  shows "\<exists>ext. observed (main_loop_upto limit' srv token urls answers w)
           = observed (main_loop_upto limit srv token urls answers w) @ ext"
proof (induct urls arbitrary: answers w)
  case Nil
  show ?case by simp
next
  case (Cons url urls)
  show ?case
  proof (cases "try_get_upto limit srv url 0 token w")
    case (Running w1)
    from try_get_upto_mono [OF assms, of srv url 0 token w] Running obtain ext1 where
      ext1: "observed (try_get_upto limit' srv url 0 token w) = sent w1 @ ext1"
      by auto
    have "\<exists>ext2. observed (main_loop_upto limit' srv token (url # urls) answers w)
        = observed (try_get_upto limit' srv url 0 token w) @ ext2"
    proof (cases "try_get_upto limit' srv url 0 token w")
      case Running': (Running w1')
      then show ?thesis by simp
    next
      case Returned': (Returned res' w1')
      show ?thesis
      proof (cases res')
        case (Inl e)
        with Returned' show ?thesis by simp
      next
        case (Inr resp)
        let ?w2 = "if py_truthy resp then w1'
                   else log_error ''Error getting secret at %s'' [PStr url] w1'"
        let ?answers = "if py_truthy resp then answers @ [resp] else answers"
        from main_loop_upto_grows [of limit' srv token urls ?answers ?w2] obtain ext where
          "observed (main_loop_upto limit' srv token urls ?answers ?w2) = sent ?w2 @ ext"
          by blast
        with Returned' Inr show ?thesis
          by (cases "py_truthy resp") auto
      qed
    qed
    then obtain ext2 where
      "observed (main_loop_upto limit' srv token (url # urls) answers w)
        = observed (try_get_upto limit' srv url 0 token w) @ ext2"
      by blast
    with ext1 have "observed (main_loop_upto limit' srv token (url # urls) answers w)
        = sent w1 @ (ext1 @ ext2)"
      by simp
    with Running show ?thesis by simp
  next
    case (Returned res w1)
    note same = try_get_upto_returned_mono [OF Returned assms]
    show ?thesis
    proof (cases res)
      case (Inl e)
      with Returned same show ?thesis by simp
    next
      case (Inr resp)
      with Returned same Cons [of "answers @ [resp]" w1]
        Cons [of answers "log_error ''Error getting secret at %s'' [PStr url] w1"]
      show ?thesis
        by (cases "py_truthy resp") simp_all
    qed
  qed
qed

text \<open>
  The traces observed for growing limits extend one another: they are the beginnings of
  one run.
\<close>

lemma main_upto_mono:
  assumes "limit \<le> limit'"
  shows "\<exists>ext. observed (main_upto limit' srv) = observed (main_upto limit srv) @ ext"
proof (cases "try_login_upto limit srv 0 start")
  case (Running w1)
  from try_login_upto_mono [OF assms, of srv 0 start] Running obtain ext1 where
    ext1: "observed (try_login_upto limit' srv 0 start) = sent w1 @ ext1"
    by auto
  have "\<exists>ext2. observed (main_upto limit' srv)
      = observed (try_login_upto limit' srv 0 start) @ ext2"
  proof (cases "try_login_upto limit' srv 0 start")
    case Running': (Running w1')
    then show ?thesis by (simp add: main_upto_def)
  next
    case Returned': (Returned res' w1')
    show ?thesis
    proof (cases res')
      case (Inl e)
      with Returned' show ?thesis by (simp add: main_upto_def)
    next
      case (Inr token)
      from main_loop_upto_grows [of limit' srv token secret_urls "[]" w1'] obtain ext where
        ext: "observed (main_loop_upto limit' srv token secret_urls [] w1') = sent w1' @ ext"
        by blast
      have "observed (main_upto limit' srv)
          = observed (main_loop_upto limit' srv token secret_urls [] w1')"
        using Returned' Inr
        by (cases "main_loop_upto limit' srv token secret_urls [] w1'")
          (auto simp: main_upto_def split: sum.splits)
      with ext Returned' show ?thesis by simp
    qed
  qed
  then obtain ext2 where
    "observed (main_upto limit' srv) = observed (try_login_upto limit' srv 0 start) @ ext2"
    by blast
  with ext1 have "observed (main_upto limit' srv) = sent w1 @ (ext1 @ ext2)"
    by simp
  with Running show ?thesis
    by (simp add: main_upto_def)
next
  case (Returned res w1)
  note same = try_login_upto_returned_mono [OF Returned assms]
  show ?thesis
  proof (cases res)
    case (Inl e)
    with Returned same show ?thesis by (simp add: main_upto_def)
  next
    case (Inr token)
    have obs: "observed (main_upto l srv)
        = observed (main_loop_upto l srv token secret_urls [] w1)"
      if "try_login_upto l srv 0 start = Returned (Inr token) w1" for l
      using that
      by (cases "main_loop_upto l srv token secret_urls [] w1")
        (auto simp: main_upto_def split: sum.splits)
    from main_loop_upto_mono [OF assms, of srv token secret_urls "[]" w1]
      obs [of limit] obs [of limit'] Returned same Inr
    show ?thesis by simp
  qed
qed


section \<open>The login\<close>

text \<open>
  C1. The claim: when no reply of the login endpoint has status 200, \<^verbatim>\<open>try_login\<close> stops
  after at most \<open>MAX_RETRIES\<close> attempts, returns \<^verbatim>\<open>None\<close> and logs an error.
  The code: against the server that answers every request with status 500,
  \<^verbatim>\<open>try_login\<close> never returns, from any state; \<^verbatim>\<open>attempts\<close> stays 0 and the loop
  is never left.
\<close>

theorem try_login_always_500_never_returns: "try_login always_500 w = None"
  by (rule try_login_diverges) (simp add: always_500_def)

text \<open>
  C8. \<^verbatim>\<open>try_login\<close> sends \<^verbatim>\<open>POST http://localhost:5000/api/login\<close> with the JSON body
  \<^verbatim>\<open>{"username": "guest", "password": "guest"}\<close>; when the reply has status 200 and a
  JSON object as body, it returns at once what \<^verbatim>\<open>body.get('access_token')\<close> gives, which
  is \<^verbatim>\<open>None\<close> when the field is missing or null, having sent that one request and logged
  nothing.
\<close>

theorem try_login_returns_access_token:
  assumes "srv (sent w @ [POST ''http://localhost:5000/api/login''
             (PDict [(''username'', PStr ''guest''), (''password'', PStr ''guest'')])])
           = Response 200 (Some (PDict kvs))"
  shows "try_login srv w =
           Some (Inr (case map_of kvs ''access_token'' of None \<Rightarrow> PNone | Some v \<Rightarrow> v),
                 w\<lparr>sent := sent w @ [POST ''http://localhost:5000/api/login''
                   (PDict [(''username'', PStr ''guest''), (''password'', PStr ''guest'')])]\<rparr>)"
  using assms
  by (simp add: try_login_def try_login_loop.simps [of srv 0 w] MAX_RETRIES_def
      session_post_def Let_def login_url_def creds_def dict_get_def)

theorem try_login_returns_access_token_witness:
  "happy_server (sent start @ [POST ''http://localhost:5000/api/login''
      (PDict [(''username'', PStr ''guest''), (''password'', PStr ''guest'')])])
     = Response 200 (Some (PDict [(''access_token'', PStr ''T1'')])) \<and>
   try_login happy_server start =
     Some (Inr (PStr ''T1''),
       \<lparr>sent = [POST ''http://localhost:5000/api/login''
          (PDict [(''username'', PStr ''guest''), (''password'', PStr ''guest'')])],
        logs = []\<rparr>)"
proof -
  have r200: "happy_server (sent start @ [POST ''http://localhost:5000/api/login''
      (PDict [(''username'', PStr ''guest''), (''password'', PStr ''guest'')])])
     = Response 200 (Some (PDict [(''access_token'', PStr ''T1'')]))"
    by code_simp
  from try_login_returns_access_token [of happy_server start, OF r200] r200 show ?thesis
    by (simp add: start_def)
qed

section \<open>The fetch\<close>

text \<open>
  C2. The claim: in every call of \<^verbatim>\<open>try_get\<close> the number of GET attempts is at most
  \<open>MAX_RETRIES\<close>, and when they are used up the call logs an error and returns \<^verbatim>\<open>None\<close>.
  The code: against a server that answers the first six GETs with 401 and the seventh with
  200, \<^verbatim>\<open>try_get\<close> returns the answer of the seventh GET; it has sent seven GETs, and
  \<open>MAX_RETRIES\<close> is 5.
\<close>

theorem try_get_sends_seven_GETs:
  "map_option fst
     (try_get stubborn_server ''http://localhost:5000/api/secret1'' (PStr ''T0'') start)
     = Some (Inr (PStr ''A1'')) \<and>
   length (filter is_GET (run_trace
     (try_get stubborn_server ''http://localhost:5000/api/secret1'' (PStr ''T0'') start))) = 7 \<and>
   MAX_RETRIES = 5"
  by code_simp

text \<open>
  C7. When a GET of \<^verbatim>\<open>try_get\<close> is answered with 401 and the login that follows returns
  \<^verbatim>\<open>None\<close>, \<^verbatim>\<open>try_get\<close> returns \<^verbatim>\<open>None\<close> from the state the login left, with one more
  record in the log, the error, and no further request. This holds in every iteration of
  the loop; \<^verbatim>\<open>try_get\<close> itself is the loop with \<^verbatim>\<open>attempts = 0\<close>.
\<close>

theorem try_get_relogin_absent:
  assumes "attempts < MAX_RETRIES"
    and "srv (sent w @ [GET url token]) = Response 401 body"
    and "try_login srv (warned (fetched url token w)) = Some (Inr PNone, w2)"
  shows "try_get_loop srv url attempts token w =
           Some (Inr PNone,
                 w2\<lparr>logs := logs w2 @ [(ERROR, PStr ''Error getting new access token'', [])]\<rparr>)"
  using assms
  by (simp add: try_get_loop_unfold [of srv url attempts token w] log_error_def)

theorem try_get_relogin_absent_witness:
  "(0::int) < MAX_RETRIES \<and>
   no_token_server (sent start @ [GET ''http://localhost:5000/api/secret1'' (PStr ''T1'')])
     = Response 401 None \<and>
   try_login no_token_server
     (warned (fetched ''http://localhost:5000/api/secret1'' (PStr ''T1'') start))
     = Some (Inr PNone,
         \<lparr>sent = [GET ''http://localhost:5000/api/secret1'' (PStr ''T1''),
                  POST login_url creds],
          logs = [(WARNING, PStr ''401 Unauthorized, retrying...'', [])]\<rparr>) \<and>
   try_get no_token_server ''http://localhost:5000/api/secret1'' (PStr ''T1'') start
     = Some (Inr PNone,
         \<lparr>sent = [GET ''http://localhost:5000/api/secret1'' (PStr ''T1''),
                  POST login_url creds],
          logs = [(WARNING, PStr ''401 Unauthorized, retrying...'', []),
                  (ERROR, PStr ''Error getting new access token'', [])]\<rparr>)"
proof -
  have lt: "(0::int) < MAX_RETRIES"
    by (simp add: MAX_RETRIES_def)
  have r401: "no_token_server
      (sent start @ [GET ''http://localhost:5000/api/secret1'' (PStr ''T1'')])
      = Response 401 None"
    by code_simp
  have login: "try_login no_token_server
      (warned (fetched ''http://localhost:5000/api/secret1'' (PStr ''T1'') start))
      = Some (Inr PNone,
          \<lparr>sent = [GET ''http://localhost:5000/api/secret1'' (PStr ''T1''),
                   POST login_url creds],
           logs = [(WARNING, PStr ''401 Unauthorized, retrying...'', [])]\<rparr>)"
    by code_simp
  from try_get_relogin_absent [OF lt r401 login] lt r401 login show ?thesis
    by (simp add: try_get_def)
qed

text \<open>
  C6. When the first GET of \<^verbatim>\<open>try_get\<close> is answered with 401, the one call of
  \<^verbatim>\<open>try_login\<close> that follows returns a token, and the GET that presents this token is
  answered with 200 and a JSON object, then \<^verbatim>\<open>try_get\<close> returns what
  \<^verbatim>\<open>body.get('answer')\<close> gives for that reply. The state it leaves is the state the
  login left with this one GET added: there was one call of \<^verbatim>\<open>try_login\<close> and there
  were two GETs. (A second GET is sent only when the token returned is true in Python's
  sense: after \<^verbatim>\<open>None\<close> or the empty string there is none.)
\<close>

theorem try_get_401_then_200:
  assumes "srv (sent w @ [GET url token]) = Response 401 body"
    and "try_login srv (warned (fetched url token w)) = Some (Inr token', w2)"
    and "py_truthy token'"
    and "srv (sent w2 @ [GET url token']) = Response 200 (Some (PDict kvs))"
  shows "try_get srv url token w =
           Some (Inr (dict_get kvs ''answer''), w2\<lparr>sent := sent w2 @ [GET url token']\<rparr>)"
  using assms
  by (simp add: try_get_def try_get_loop_unfold [of srv url 0 token w]
      try_get_loop_unfold [of srv url 0 token' w2] MAX_RETRIES_def fetched_def)

theorem try_get_401_then_200_witness:
  "expiring_server
     (sent (posted start) @ [GET ''http://localhost:5000/api/secret1'' (PStr ''T1'')])
     = Response 401 None \<and>
   try_login expiring_server
     (warned (fetched ''http://localhost:5000/api/secret1'' (PStr ''T1'') (posted start)))
     = Some (Inr (PStr ''T2''),
         \<lparr>sent = [POST login_url creds,
                  GET ''http://localhost:5000/api/secret1'' (PStr ''T1''),
                  POST login_url creds],
          logs = [(WARNING, PStr ''401 Unauthorized, retrying...'', [])]\<rparr>) \<and>
   py_truthy (PStr ''T2'') \<and>
   expiring_server
     [POST login_url creds,
      GET ''http://localhost:5000/api/secret1'' (PStr ''T1''),
      POST login_url creds,
      GET ''http://localhost:5000/api/secret1'' (PStr ''T2'')]
     = Response 200 (Some (PDict [(''answer'', PStr ''A1'')])) \<and>
   try_get expiring_server ''http://localhost:5000/api/secret1'' (PStr ''T1'') (posted start)
     = Some (Inr (PStr ''A1''),
         \<lparr>sent = [POST login_url creds,
                  GET ''http://localhost:5000/api/secret1'' (PStr ''T1''),
                  POST login_url creds,
                  GET ''http://localhost:5000/api/secret1'' (PStr ''T2'')],
          logs = [(WARNING, PStr ''401 Unauthorized, retrying...'', [])]\<rparr>)"
proof -
  let ?w2 = "\<lparr>sent = [POST login_url creds,
                  GET ''http://localhost:5000/api/secret1'' (PStr ''T1''),
                  POST login_url creds],
          logs = [(WARNING, PStr ''401 Unauthorized, retrying...'', [])]\<rparr>"
  have r401: "expiring_server
      (sent (posted start) @ [GET ''http://localhost:5000/api/secret1'' (PStr ''T1'')])
      = Response 401 None"
    by code_simp
  have login: "try_login expiring_server
      (warned (fetched ''http://localhost:5000/api/secret1'' (PStr ''T1'') (posted start)))
      = Some (Inr (PStr ''T2''), ?w2)"
    by code_simp
  have truthy: "py_truthy (PStr ''T2'')"
    by simp
  have r200: "expiring_server
      (sent ?w2 @ [GET ''http://localhost:5000/api/secret1'' (PStr ''T2'')])
      = Response 200 (Some (PDict [(''answer'', PStr ''A1'')]))"
    by code_simp
  from try_get_401_then_200 [OF r401 login truthy r200] r401 login r200 show ?thesis
    by (simp add: dict_get_def)
qed

section \<open>The whole run\<close>

text \<open>
  C9. When the login is answered with 200 and \<^verbatim>\<open>{"access_token": T1}\<close> and the first GET
  of each of the three resources with 200 and \<^verbatim>\<open>{"answer": A1}\<close>, \<^verbatim>\<open>{"answer": A2}\<close>,
  \<^verbatim>\<open>{"answer": A3}\<close>, the answers being non-empty strings as in the specification, then
  \<^verbatim>\<open>main\<close> returns after these four requests and its log is the three answers in order,
  each at level INFO.
\<close>

theorem main_logs_three_answers:
  assumes "srv [POST login_url creds] = Response 200 (Some (PDict [(''access_token'', PStr T1)]))"
    and "srv [POST login_url creds,
              GET ''http://localhost:5000/api/secret1'' (PStr T1)]
           = Response 200 (Some (PDict [(''answer'', PStr A1)]))"
    and "srv [POST login_url creds,
              GET ''http://localhost:5000/api/secret1'' (PStr T1),
              GET ''http://localhost:5000/api/secret2'' (PStr T1)]
           = Response 200 (Some (PDict [(''answer'', PStr A2)]))"
    and "srv [POST login_url creds,
              GET ''http://localhost:5000/api/secret1'' (PStr T1),
              GET ''http://localhost:5000/api/secret2'' (PStr T1),
              GET ''http://localhost:5000/api/secret3'' (PStr T1)]
           = Response 200 (Some (PDict [(''answer'', PStr A3)]))"
    and "A1 \<noteq> []" and "A2 \<noteq> []" and "A3 \<noteq> []"
  shows "main srv =
           Some (Inr (),
             \<lparr>sent = [POST login_url creds,
                      GET ''http://localhost:5000/api/secret1'' (PStr T1),
                      GET ''http://localhost:5000/api/secret2'' (PStr T1),
                      GET ''http://localhost:5000/api/secret3'' (PStr T1)],
              logs = [(INFO, PStr A1, []), (INFO, PStr A2, []), (INFO, PStr A3, [])]\<rparr>)"
proof -
  let ?u1 = "''http://localhost:5000/api/secret1''"
  let ?u2 = "''http://localhost:5000/api/secret2''"
  let ?u3 = "''http://localhost:5000/api/secret3''"
  let ?w1 = "posted start"
  let ?w2 = "fetched ?u1 (PStr T1) ?w1"
  let ?w3 = "fetched ?u2 (PStr T1) ?w2"
  let ?w4 = "fetched ?u3 (PStr T1) ?w3"
  have login: "try_login srv start = Some (Inr (PStr T1), ?w1)"
    using assms(1) try_login_200 [of srv start]
    by (simp add: start_def dict_get_def)
  have g1: "try_get srv ?u1 (PStr T1) ?w1 = Some (Inr (PStr A1), ?w2)"
    using assms(2) try_get_200 [of srv ?w1 ?u1 "PStr T1"]
    by (simp add: start_def dict_get_def)
  have g2: "try_get srv ?u2 (PStr T1) ?w2 = Some (Inr (PStr A2), ?w3)"
    using assms(3) try_get_200 [of srv ?w2 ?u2 "PStr T1"]
    by (simp add: start_def dict_get_def)
  have g3: "try_get srv ?u3 (PStr T1) ?w3 = Some (Inr (PStr A3), ?w4)"
    using assms(4) try_get_200 [of srv ?w3 ?u3 "PStr T1"]
    by (simp add: start_def dict_get_def)
  have loop: "main_loop srv (PStr T1) secret_urls [] ?w1 =
      Some (Inr [PStr A1, PStr A2, PStr A3], ?w4)"
    using assms(5-7) by (simp add: secret_urls_def g1 g2 g3)
  show ?thesis
    by (simp add: main_def login loop)
      (simp add: log_info_def fetched_def posted_def start_def)
qed

theorem main_logs_three_answers_witness:
  "happy_server [POST login_url creds]
     = Response 200 (Some (PDict [(''access_token'', PStr ''T1'')])) \<and>
   happy_server [POST login_url creds,
       GET ''http://localhost:5000/api/secret1'' (PStr ''T1'')]
     = Response 200 (Some (PDict [(''answer'', PStr ''A1'')])) \<and>
   happy_server [POST login_url creds,
       GET ''http://localhost:5000/api/secret1'' (PStr ''T1''),
       GET ''http://localhost:5000/api/secret2'' (PStr ''T1'')]
     = Response 200 (Some (PDict [(''answer'', PStr ''A2'')])) \<and>
   happy_server [POST login_url creds,
       GET ''http://localhost:5000/api/secret1'' (PStr ''T1''),
       GET ''http://localhost:5000/api/secret2'' (PStr ''T1''),
       GET ''http://localhost:5000/api/secret3'' (PStr ''T1'')]
     = Response 200 (Some (PDict [(''answer'', PStr ''A3'')])) \<and>
   ''A1'' \<noteq> [] \<and> ''A2'' \<noteq> [] \<and> ''A3'' \<noteq> [] \<and>
   main happy_server =
     Some (Inr (),
       \<lparr>sent = [POST login_url creds,
                GET ''http://localhost:5000/api/secret1'' (PStr ''T1''),
                GET ''http://localhost:5000/api/secret2'' (PStr ''T1''),
                GET ''http://localhost:5000/api/secret3'' (PStr ''T1'')],
        logs = [(INFO, PStr ''A1'', []), (INFO, PStr ''A2'', []), (INFO, PStr ''A3'', [])]\<rparr>)"
proof -
  have r0: "happy_server [POST login_url creds]
     = Response 200 (Some (PDict [(''access_token'', PStr ''T1'')]))"
    by code_simp
  have r1: "happy_server [POST login_url creds,
       GET ''http://localhost:5000/api/secret1'' (PStr ''T1'')]
     = Response 200 (Some (PDict [(''answer'', PStr ''A1'')]))"
    by code_simp
  have r2: "happy_server [POST login_url creds,
       GET ''http://localhost:5000/api/secret1'' (PStr ''T1''),
       GET ''http://localhost:5000/api/secret2'' (PStr ''T1'')]
     = Response 200 (Some (PDict [(''answer'', PStr ''A2'')]))"
    by code_simp
  have r3: "happy_server [POST login_url creds,
       GET ''http://localhost:5000/api/secret1'' (PStr ''T1''),
       GET ''http://localhost:5000/api/secret2'' (PStr ''T1''),
       GET ''http://localhost:5000/api/secret3'' (PStr ''T1'')]
     = Response 200 (Some (PDict [(''answer'', PStr ''A3'')]))"
    by code_simp
  have ne: "''A1'' \<noteq> []" "''A2'' \<noteq> []" "''A3'' \<noteq> []"
    by simp_all
  from main_logs_three_answers [OF r0 r1 r2 r3 ne] r0 r1 r2 r3 show ?thesis
    by simp
qed

text \<open>
  C10. When the GET of a resource is answered with 200 and a JSON object whose
  \<^verbatim>\<open>answer\<close> is the empty string, the loop of \<^verbatim>\<open>main\<close> goes on to the remaining URLs
  with one more record in the log, the error naming the URL, and with \<^verbatim>\<open>answers\<close> as it
  was: the empty string is false in Python's sense, so \<^verbatim>\<open>if not resp\<close> takes it for a
  failure.
\<close>

theorem main_loop_empty_answer:
  assumes "srv (sent w @ [GET url token]) = Response 200 (Some (PDict kvs))"
    and "dict_get kvs ''answer'' = PStr []"
  shows "main_loop srv token (url # urls) answers w =
           main_loop srv token urls answers
             ((fetched url token w)
                \<lparr>logs := logs w @ [(ERROR, PStr ''Error getting secret at %s'', [PStr url])]\<rparr>)"
  using assms try_get_200 [of srv w url token "Some (PDict kvs)"]
  by (simp add: log_error_def)

theorem main_loop_empty_answer_witness:
  "empty_answer_server
     (sent (fetched ''http://localhost:5000/api/secret1'' (PStr ''T1'') (posted start)) @
      [GET ''http://localhost:5000/api/secret2'' (PStr ''T1'')])
     = Response 200 (Some (PDict [(''answer'', PStr [])])) \<and>
   dict_get [(''answer'', PStr [])] ''answer'' = PStr [] \<and>
   main_loop empty_answer_server (PStr ''T1'')
     [''http://localhost:5000/api/secret2'', ''http://localhost:5000/api/secret3'']
     [PStr ''A1'']
     (fetched ''http://localhost:5000/api/secret1'' (PStr ''T1'') (posted start))
     = Some (Inr [PStr ''A1'', PStr ''A3''],
         \<lparr>sent = [POST login_url creds,
                  GET ''http://localhost:5000/api/secret1'' (PStr ''T1''),
                  GET ''http://localhost:5000/api/secret2'' (PStr ''T1''),
                  GET ''http://localhost:5000/api/secret3'' (PStr ''T1'')],
          logs = [(ERROR, PStr ''Error getting secret at %s'',
                    [PStr ''http://localhost:5000/api/secret2''])]\<rparr>) \<and>
   main empty_answer_server
     = Some (Inr (),
         \<lparr>sent = [POST login_url creds,
                  GET ''http://localhost:5000/api/secret1'' (PStr ''T1''),
                  GET ''http://localhost:5000/api/secret2'' (PStr ''T1''),
                  GET ''http://localhost:5000/api/secret3'' (PStr ''T1'')],
          logs = [(ERROR, PStr ''Error getting secret at %s'',
                    [PStr ''http://localhost:5000/api/secret2'']),
                  (INFO, PStr ''A1'', []), (INFO, PStr ''A3'', [])]\<rparr>)"
proof -
  let ?u2 = "''http://localhost:5000/api/secret2''"
  let ?u3 = "''http://localhost:5000/api/secret3''"
  let ?w = "fetched ''http://localhost:5000/api/secret1'' (PStr ''T1'') (posted start)"
  let ?final = "\<lparr>sent = [POST login_url creds,
                  GET ''http://localhost:5000/api/secret1'' (PStr ''T1''),
                  GET ''http://localhost:5000/api/secret2'' (PStr ''T1''),
                  GET ''http://localhost:5000/api/secret3'' (PStr ''T1'')],
          logs = [(ERROR, PStr ''Error getting secret at %s'',
                    [PStr ''http://localhost:5000/api/secret2''])]\<rparr>"
  have r200: "empty_answer_server (sent ?w @ [GET ?u2 (PStr ''T1'')])
      = Response 200 (Some (PDict [(''answer'', PStr [])]))"
    by code_simp
  have empty: "dict_get [(''answer'', PStr [])] ''answer'' = PStr []"
    by code_simp
  have rest: "main_loop empty_answer_server (PStr ''T1'') [?u3] [PStr ''A1'']
      ((fetched ?u2 (PStr ''T1'') ?w)
         \<lparr>logs := logs ?w @ [(ERROR, PStr ''Error getting secret at %s'', [PStr ?u2])]\<rparr>)
      = Some (Inr [PStr ''A1'', PStr ''A3''], ?final)"
    by code_simp
  have whole: "main empty_answer_server
     = Some (Inr (),
         \<lparr>sent = [POST login_url creds,
                  GET ''http://localhost:5000/api/secret1'' (PStr ''T1''),
                  GET ''http://localhost:5000/api/secret2'' (PStr ''T1''),
                  GET ''http://localhost:5000/api/secret3'' (PStr ''T1'')],
          logs = [(ERROR, PStr ''Error getting secret at %s'',
                    [PStr ''http://localhost:5000/api/secret2'']),
                  (INFO, PStr ''A1'', []), (INFO, PStr ''A3'', [])]\<rparr>)"
    by code_simp
  from main_loop_empty_answer
    [of empty_answer_server ?w ?u2 "PStr ''T1''" "[(''answer'', PStr [])]" "[?u3]" "[PStr ''A1'']",
      OF r200 empty] rest
  have "main_loop empty_answer_server (PStr ''T1'') [?u2, ?u3] [PStr ''A1''] ?w
      = Some (Inr [PStr ''A1'', PStr ''A3''], ?final)"
    by simp
  with r200 empty whole show ?thesis
    by simp
qed

text \<open>
  C3. The claim: when the first and the third resource give their answers, the second is
  always answered with 401 and no login after the first is answered with 200, the output is
  the two answers, and an error is logged for the second resource.
  The code: against such a server \<^verbatim>\<open>main\<close> never returns. The 401 of the second resource
  starts a login, and the loop of \<^verbatim>\<open>try_login\<close> is left only by a reply with status 200.
\<close>

theorem main_relogin_fails_never_returns: "main relogin_fails_server = None"
proof -
  let ?u1 = "''http://localhost:5000/api/secret1''"
  let ?u2 = "''http://localhost:5000/api/secret2''"
  let ?w1 = "posted start"
  let ?w2 = "fetched ?u1 (PStr ''T1'') ?w1"
  have login: "try_login relogin_fails_server start = Some (Inr (PStr ''T1''), ?w1)"
    by code_simp
  have g1: "try_get relogin_fails_server ?u1 (PStr ''T1'') ?w1 = Some (Inr (PStr ''A1''), ?w2)"
    by code_simp
  have r401: "relogin_fails_server (sent ?w2 @ [GET ?u2 (PStr ''T1'')]) = Response 401 None"
    by code_simp
  have later: "relogin_fails_server (h @ replicate (Suc k) (POST login_url creds))
      = Response 500 None" if "h \<noteq> []" for h k
  proof -
    have eq: "rev (h @ replicate (Suc k) (POST login_url creds)) =
        POST login_url creds # (replicate k (POST login_url creds) @ rev h)"
      by (simp add: replicate_append_same)
    have ne: "replicate k (POST login_url creds) @ rev h \<noteq> []"
      using that by simp
    show ?thesis
      unfolding relogin_fails_server_def eq using ne by simp
  qed
  have "try_login relogin_fails_server (warned (fetched ?u2 (PStr ''T1'') ?w2)) = None"
  proof (rule try_login_diverges)
    fix k
    let ?h = "sent (warned (fetched ?u2 (PStr ''T1'') ?w2))"
    have ne: "?h \<noteq> []"
      by simp
    show "\<exists>status body.
        relogin_fails_server (?h @ replicate (Suc k) (POST login_url creds))
          = Response status body \<and> status \<noteq> 200"
      by (rule exI [of _ 500], rule exI [of _ None]) (simp only: later [OF ne], simp)
  qed
  with r401 have "try_get_loop relogin_fails_server ?u2 0 (PStr ''T1'') ?w2 = None"
    by (intro try_get_loop_401_diverges) (simp_all add: MAX_RETRIES_def)
  then have g2: "try_get relogin_fails_server ?u2 (PStr ''T1'') ?w2 = None"
    by (simp add: try_get_def)
  show ?thesis
    by (simp add: main_def login secret_urls_def g1 g2)
qed




text \<open>
  C5. At every moment of every run of \<^verbatim>\<open>main\<close>, whether the run returns, raises or goes
  on for ever, the first GET of every URL presents the snapshot, the token that the first
  login of \<^verbatim>\<open>main\<close> returned, whatever logins the fetches before it have made; and when
  \<^verbatim>\<open>main\<close> has returned without an exception, each of the three URLs has had its first
  GET. The first GET of a URL is the first request of the call of \<^verbatim>\<open>try_get\<close> for it, so
  it presents the token that \<^verbatim>\<open>main\<close> passed to that call. The run is taken after any
  number \<open>limit\<close> of requests.
\<close>

theorem main_first_GET_presents_snapshot:
  "(\<forall>u t. first_get u (observed (main_upto limit srv)) = Some t \<longrightarrow> snapshot srv = Some t) \<and>
   (\<forall>w. main_upto limit srv = Returned (Inr ()) w \<longrightarrow>
      (\<forall>u\<in>set secret_urls. first_get u (sent w) = snapshot srv \<and> snapshot srv \<noteq> None))"
proof (intro conjI allI impI ballI)
  fix u t
  assume "first_get u (observed (main_upto limit srv)) = Some t"
  with main_upto_tokens [of srv limit] show "snapshot srv = Some t"
    by (rule invariant_first_get)
next
  fix w u
  assume returned: "main_upto limit srv = Returned (Inr ()) w" and u: "u \<in> set secret_urls"
  from main_upto_sound [OF returned] have run: "main srv = Some (Inr (), w)" .
  from main_returned_login [OF run] obtain snap w1 where
    login: "try_login srv start = Some (Inr snap, w1)"
    by blast
  then have "snapshot srv = Some snap"
    by (simp add: snapshot_def)
  with main_first_gets [OF login run] u
  show "first_get u (sent w) = snapshot srv" and "snapshot srv \<noteq> None"
    by simp_all
qed

theorem main_first_GET_presents_snapshot_witness:
  "main hanging_server = None \<and>
   observed (main_upto 6 hanging_server) =
     [POST login_url creds,
      GET ''http://localhost:5000/api/secret1'' (PStr ''T1''),
      POST login_url creds,
      GET ''http://localhost:5000/api/secret1'' (PStr ''T2''),
      GET ''http://localhost:5000/api/secret2'' (PStr ''T1''),
      GET ''http://localhost:5000/api/secret2'' (PStr ''T1'')] \<and>
   first_get ''http://localhost:5000/api/secret2'' (observed (main_upto 6 hanging_server))
     = Some (PStr ''T1'') \<and>
   snapshot hanging_server = Some (PStr ''T1'') \<and>
   (\<exists>w. main_upto 6 expiring_server = Returned (Inr ()) w \<and>
      first_get ''http://localhost:5000/api/secret2'' (sent w) = snapshot expiring_server \<and>
      snapshot expiring_server \<noteq> None)"
proof -
  let ?final = "\<lparr>sent = [POST login_url creds,
                GET ''http://localhost:5000/api/secret1'' (PStr ''T1''),
                POST login_url creds,
                GET ''http://localhost:5000/api/secret1'' (PStr ''T2''),
                GET ''http://localhost:5000/api/secret2'' (PStr ''T1''),
                GET ''http://localhost:5000/api/secret3'' (PStr ''T1'')],
        logs = [(WARNING, PStr ''401 Unauthorized, retrying...'', []),
                (INFO, PStr ''A1'', []), (INFO, PStr ''A2'', []), (INFO, PStr ''A3'', [])]\<rparr>"
  have trace: "observed (main_upto 6 hanging_server) =
     [POST login_url creds,
      GET ''http://localhost:5000/api/secret1'' (PStr ''T1''),
      POST login_url creds,
      GET ''http://localhost:5000/api/secret1'' (PStr ''T2''),
      GET ''http://localhost:5000/api/secret2'' (PStr ''T1''),
      GET ''http://localhost:5000/api/secret2'' (PStr ''T1'')]"
    by code_simp
  have first: "first_get ''http://localhost:5000/api/secret2''
      (observed (main_upto 6 hanging_server)) = Some (PStr ''T1'')"
    by code_simp
  have returned: "main_upto 6 expiring_server = Returned (Inr ()) ?final"
    by code_simp
  have member: "''http://localhost:5000/api/secret2'' \<in> set secret_urls"
    by (simp add: secret_urls_def)
  from main_first_GET_presents_snapshot [of 6 hanging_server] first
  have snap: "snapshot hanging_server = Some (PStr ''T1'')"
    by blast
  from main_first_GET_presents_snapshot [of 6 expiring_server] returned member
  have "first_get ''http://localhost:5000/api/secret2'' (sent ?final) = snapshot expiring_server \<and>
      snapshot expiring_server \<noteq> None"
    by blast
  with returned have "\<exists>w. main_upto 6 expiring_server = Returned (Inr ()) w \<and>
      first_get ''http://localhost:5000/api/secret2'' (sent w) = snapshot expiring_server \<and>
      snapshot expiring_server \<noteq> None"
    by blast
  with main_hanging_server trace first snap show ?thesis
    by blast
qed

end
